theory Spec2Isabelle
  imports Main "HOL-Library.AList" "HOL-Library.Multiset"
begin

section \<open>JavaScript values\<close>

text \<open>
  The database of \<^verbatim>\<open>App.jsx\<close> is a plain JavaScript object: it comes out of
  \<^verbatim>\<open>JSON.parse\<close> (\<^verbatim>\<open>loadDB\<close>, \<^verbatim>\<open>importJSON\<close>) and grows by object and array literals
  over strings, numbers and arrays. Such a value is a JSON value. An object is an
  association list in insertion order; distinct keys are its representation invariant.
  (The platform lists the keys that are array indices before the others. No key that the
  program reads or writes is one, and the order of the keys shows in nothing but the text
  that \<^verbatim>\<open>JSON.stringify\<close> writes.)
  Numbers are the integers that a double holds exactly, at most \<open>2^53 - 1\<close> in absolute
  value (\<^verbatim>\<open>Date.now()\<close> timestamps and the version tag); a string is a list of 8-bit
  characters, the code points of Latin-1. The value \<^verbatim>\<open>undefined\<close> never sits inside a database; it is
  the result of reading a property that is not there, and is modelled as \<open>None\<close>.
\<close>

datatype json =
    JNull
  | JBool bool
  | JNum int
  | JStr string
  | JArr "json list"
  | JObj "(string \<times> json) list"

text \<open>What the program throws: the exceptions of the platform, and the two errors that
  \<^verbatim>\<open>importJSON\<close> raises itself. \<open>Unmodelled\<close> is not an exception: it marks an input on
  which this model does not say what the program does (the conversion of a string to a
  number or to a date, a sort whose comparator is inconsistent, a built-in method read as
  a property).\<close>

datatype error = SyntaxError | TypeError | RangeError | Invalid_file | Missing_keys | Unmodelled

text \<open>\<^verbatim>\<open>v.k\<close>, for the names \<open>k\<close> that the program reads (\<^verbatim>\<open>id\<close>, \<^verbatim>\<open>investigationId\<close>,
  \<^verbatim>\<open>title\<close>, \<^verbatim>\<open>caseNumber\<close>, \<^verbatim>\<open>description\<close>, \<^verbatim>\<open>status\<close>, \<^verbatim>\<open>type\<close>, \<^verbatim>\<open>tags\<close>,
  \<^verbatim>\<open>createdAt\<close>, \<^verbatim>\<open>updatedAt\<close>, \<^verbatim>\<open>entries\<close>, \<^verbatim>\<open>timestamp\<close>, \<^verbatim>\<open>author\<close>, \<^verbatim>\<open>body\<close>,
  \<^verbatim>\<open>attachments\<close>, \<^verbatim>\<open>label\<close>, \<^verbatim>\<open>url\<close>, \<^verbatim>\<open>investigations\<close>, \<^verbatim>\<open>evidence\<close>). Reading a
  property of \<^verbatim>\<open>null\<close> throws. An object has its members. A string, a number and a
  boolean have none of these names, and neither do their prototypes. An array has none of
  them but \<^verbatim>\<open>entries\<close>, which it inherits from \<^verbatim>\<open>Array.prototype\<close>: that is a built-in
  method, a function and so no value of this model, and the read is \<open>Unmodelled\<close>.\<close>

fun get_prop :: "json \<Rightarrow> string \<Rightarrow> error + json option" where
  "get_prop JNull k = Inl TypeError"
| "get_prop (JObj kvs) k = Inr (map_of kvs k)"
| "get_prop (JArr xs) k = (if k = ''entries'' then Inl Unmodelled else Inr None)"
| "get_prop v k = Inr None"

text \<open>The receiver of \<^verbatim>\<open>.map\<close>, \<^verbatim>\<open>.filter\<close>, \<^verbatim>\<open>.find\<close>, \<^verbatim>\<open>.forEach\<close> and \<^verbatim>\<open>.join\<close>: anything
  but an array has no such method, and the call throws.\<close>

fun array_of :: "json option \<Rightarrow> error + json list" where
  "array_of (Some (JArr xs)) = Inr xs"
| "array_of v = Inl TypeError"

text \<open>Truthiness, as \<^verbatim>\<open>!x\<close>, \<^verbatim>\<open>x || y\<close>, \<^verbatim>\<open>x ? a : b\<close> and \<^verbatim>\<open>Boolean\<close> read it.\<close>

fun truthy :: "json option \<Rightarrow> bool" where
  "truthy None = False"
| "truthy (Some JNull) = False"
| "truthy (Some (JBool b)) = b"
| "truthy (Some (JNum n)) = (n \<noteq> 0)"
| "truthy (Some (JStr s)) = (s \<noteq> [])"
| "truthy (Some (JArr xs)) = True"
| "truthy (Some (JObj kvs)) = True"

text \<open>\<^verbatim>\<open>x || d\<close> with a default \<open>d\<close> that is a value.\<close>

definition or_else :: "json option \<Rightarrow> json \<Rightarrow> json" where
  "or_else x d = (if truthy x then the x else d)"

text \<open>\<^verbatim>\<open>a === b\<close>. Two primitives are equal when they are the same value; two objects or
  arrays only when they are the same reference, which two values read from different
  places of a parsed database never are.\<close>

fun is_ref :: "json option \<Rightarrow> bool" where
  "is_ref (Some (JArr xs)) = True"
| "is_ref (Some (JObj kvs)) = True"
| "is_ref v = False"

definition strict_eq :: "json option \<Rightarrow> json option \<Rightarrow> bool" where
  "strict_eq a b \<longleftrightarrow> a = b \<and> \<not> is_ref a"

subsection \<open>Conversion to a string\<close>

text \<open>The decimal digits of an integer, with a minus sign before those of a negative
  one.\<close>

definition digit_char :: "int \<Rightarrow> char" where
  "digit_char d = char_of (48 + d)"

function show_pos :: "int \<Rightarrow> string" where
  "show_pos n = (if n < 10 then [digit_char n] else show_pos (n div 10) @ [digit_char (n mod 10)])"
  by pat_completeness auto
termination
  by (relation "measure nat") auto

declare show_pos.simps [simp del]

definition show_int :: "int \<Rightarrow> string" where
  "show_int i = (if i < 0 then CHR ''-'' # show_pos (- i) else show_pos i)"

text \<open>The lists \<open>xs\<close> one after the other, with \<open>sep\<close> between every two of them.\<close>

fun intercalate :: "'a list \<Rightarrow> 'a list list \<Rightarrow> 'a list" where
  "intercalate sep [] = []"
| "intercalate sep [x] = x"
| "intercalate sep (x # y # ys) = x @ sep @ intercalate sep (y # ys)"

text \<open>\<^verbatim>\<open>String(x)\<close>; inside an array, \<^verbatim>\<open>null\<close> prints as nothing. A number of the model,
  an integer of at most \<open>2^53 - 1\<close> in absolute value, prints as its decimal digits. (Beyond
  that the platform prints the shortest digits that give the double back, which this
  function does not follow; no number of a parsed database and no time of the clock is
  that large.)\<close>

fun to_string :: "json \<Rightarrow> string" where
  "to_string JNull = ''null''"
| "to_string (JBool b) = (if b then ''true'' else ''false'')"
| "to_string (JNum n) = show_int n"
| "to_string (JStr s) = s"
| "to_string (JArr xs) =
     intercalate '','' (map (\<lambda>x. if x = JNull then [] else to_string x) xs)"
| "to_string (JObj kvs) = ''[object Object]''"

text \<open>The double quote, the line feed and the backslash.\<close>

definition dquote :: char where
  "dquote = CHR 0x22"

definition newline :: char where
  "newline = CHR 0x0A"

definition backslash :: char where
  "backslash = CHR 0x5C"

subsection \<open>Spread and object literals\<close>

text \<open>\<^verbatim>\<open>{...v}\<close> copies the own enumerable properties of \<open>v\<close>: the members of an object, the
  indices of an array or of a string, nothing for \<^verbatim>\<open>null\<close>, a number or a boolean.\<close>

fun own_props :: "json \<Rightarrow> (string \<times> json) list" where
  "own_props (JObj kvs) = kvs"
| "own_props (JArr xs) = zip (map (\<lambda>n. show_int (int n)) [0..<length xs]) xs"
| "own_props (JStr s) =
     zip (map (\<lambda>n. show_int (int n)) [0..<length s]) (map (\<lambda>c. JStr [c]) s)"
| "own_props v = []"

text \<open>Writing \<^verbatim>\<open>k: v\<close> in an object literal replaces the value of a key that is already
  there, in its place, and appends a new key at the end: \<open>AList.update\<close>. \<^verbatim>\<open>{...a, ...b}\<close>
  writes the properties of \<open>b\<close> one after the other.\<close>

definition assign :: "(string \<times> json) list \<Rightarrow> (string \<times> json) list \<Rightarrow> (string \<times> json) list" where
  "assign new base = fold (\<lambda>(k, v). AList.update k v) new base"

text \<open>\<^verbatim>\<open>[x, ...v]\<close>: the spread in an array literal iterates \<open>v\<close>; an array gives its
  elements, a string its characters, and anything else is not iterable.\<close>

fun iterate :: "json option \<Rightarrow> error + json list" where
  "iterate (Some (JArr xs)) = Inr xs"
| "iterate (Some (JStr s)) = Inr (map (\<lambda>c. JStr [c]) s)"
| "iterate v = Inl TypeError"

subsection \<open>Callbacks that may throw\<close>

text \<open>Sequencing of steps that may throw: the first error ends the computation.\<close>

definition thenE :: "error + 'a \<Rightarrow> ('a \<Rightarrow> error + 'b) \<Rightarrow> error + 'b" where
  "thenE m f = (case m of Inl e \<Rightarrow> Inl e | Inr x \<Rightarrow> f x)"

fun mapE :: "('a \<Rightarrow> error + 'b) \<Rightarrow> 'a list \<Rightarrow> error + 'b list" where
  "mapE f [] = Inr []"
| "mapE f (x # xs) =
     (case f x of Inl e \<Rightarrow> Inl e
      | Inr y \<Rightarrow> (case mapE f xs of Inl e \<Rightarrow> Inl e | Inr ys \<Rightarrow> Inr (y # ys)))"

fun filterE :: "('a \<Rightarrow> error + bool) \<Rightarrow> 'a list \<Rightarrow> error + 'a list" where
  "filterE p [] = Inr []"
| "filterE p (x # xs) =
     (case p x of Inl e \<Rightarrow> Inl e
      | Inr b \<Rightarrow> (case filterE p xs of Inl e \<Rightarrow> Inl e
                 | Inr ys \<Rightarrow> Inr (if b then x # ys else ys)))"

text \<open>\<^verbatim>\<open>xs.find(p)\<close>: the first element that satisfies \<open>p\<close>, or \<^verbatim>\<open>undefined\<close>; the search
  stops there, so a later element on which \<open>p\<close> would throw is not reached.\<close>

fun findE :: "('a \<Rightarrow> error + bool) \<Rightarrow> 'a list \<Rightarrow> error + 'a option" where
  "findE p [] = Inr None"
| "findE p (x # xs) =
     (case p x of Inl e \<Rightarrow> Inl e | Inr b \<Rightarrow> if b then Inr (Some x) else findE p xs)"

section \<open>JSON text\<close>

text \<open>
  \<^verbatim>\<open>JSON.parse\<close> and \<^verbatim>\<open>JSON.stringify\<close> belong to the platform, not to the repository; they
  are modelled here from the JSON grammar and from the serialisation algorithm of the
  language standard, for the values of this model. A text is a list of 8-bit characters.
  A number is an integer that a double holds exactly (at most \<open>2^53 - 1\<close> in absolute
  value); a literal with a fraction or an exponent, a larger integer, and an escape
  \<^verbatim>\<open>\uXXXX\<close> beyond 8 bits are \<open>Unmodelled\<close>. The parser is a recursive descent with fuel,
  one unit for each call; running out of fuel is \<open>Unmodelled\<close> as well.
\<close>

definition is_ws :: "char \<Rightarrow> bool" where
  "is_ws c \<longleftrightarrow> c = CHR '' '' \<or> c = CHR 0x09 \<or> c = CHR 0x0A \<or> c = CHR 0x0D"

definition skip_ws :: "string \<Rightarrow> string" where
  "skip_ws cs = dropWhile is_ws cs"

definition is_digit :: "char \<Rightarrow> bool" where
  "is_digit c \<longleftrightarrow> 48 \<le> (of_char c :: int) \<and> (of_char c :: int) \<le> 57"

definition digit_val :: "char \<Rightarrow> int" where
  "digit_val c = of_char c - 48"

definition digits_val :: "string \<Rightarrow> int" where
  "digits_val ds = foldl (\<lambda>a c. 10 * a + digit_val c) 0 ds"

definition hex_val :: "char \<Rightarrow> int option" where
  "hex_val c =
     (let n = of_char c :: int
      in if 48 \<le> n \<and> n \<le> 57 then Some (n - 48)
         else if 97 \<le> n \<and> n \<le> 102 then Some (n - 87)
         else if 65 \<le> n \<and> n \<le> 70 then Some (n - 55)
         else None)"

definition hex4 :: "char \<Rightarrow> char \<Rightarrow> char \<Rightarrow> char \<Rightarrow> int option" where
  "hex4 a b c d =
     (case (hex_val a, hex_val b, hex_val c, hex_val d) of
        (Some w, Some x, Some y, Some z) \<Rightarrow> Some (((w * 16 + x) * 16 + y) * 16 + z)
      | r \<Rightarrow> None)"

text \<open>The character that a one-letter escape stands for.\<close>

definition unescape :: "char \<Rightarrow> char option" where
  "unescape e =
     (if e = dquote then Some dquote
      else if e = backslash then Some backslash
      else if e = CHR ''/'' then Some (CHR ''/'')
      else if e = CHR ''b'' then Some (CHR 0x08)
      else if e = CHR ''f'' then Some (CHR 0x0C)
      else if e = CHR ''n'' then Some (CHR 0x0A)
      else if e = CHR ''r'' then Some (CHR 0x0D)
      else if e = CHR ''t'' then Some (CHR 0x09)
      else None)"

text \<open>The characters of a string literal, after its opening quote.\<close>

fun parse_chars :: "string \<Rightarrow> error + string \<times> string" where
  "parse_chars [] = Inl SyntaxError"
| "parse_chars (c # cs) =
     (if c = dquote then Inr ([], cs)
      else if c = backslash then
        (case cs of
           [] \<Rightarrow> Inl SyntaxError
         | e # cs' \<Rightarrow>
             if e = CHR ''u'' then
               (case cs' of
                  h1 # h2 # h3 # h4 # cs'' \<Rightarrow>
                    (case hex4 h1 h2 h3 h4 of
                       None \<Rightarrow> Inl SyntaxError
                     | Some n \<Rightarrow>
                         if n < 256
                         then (case parse_chars cs'' of Inl err \<Rightarrow> Inl err
                               | Inr (s, r) \<Rightarrow> Inr (char_of n # s, r))
                         else Inl Unmodelled)
                | r \<Rightarrow> Inl SyntaxError)
             else
               (case unescape e of
                  None \<Rightarrow> Inl SyntaxError
                | Some ch \<Rightarrow>
                    (case parse_chars cs' of Inl err \<Rightarrow> Inl err
                     | Inr (s, r) \<Rightarrow> Inr (ch # s, r))))
      else if (of_char c :: int) < 32 then Inl SyntaxError
      else (case parse_chars cs of Inl err \<Rightarrow> Inl err | Inr (s, r) \<Rightarrow> Inr (c # s, r)))"

text \<open>A number literal: an optional minus sign, then \<open>0\<close> or a digit from 1 to 9 followed
  by digits.\<close>

definition parse_digits :: "string \<Rightarrow> error + int \<times> string" where
  "parse_digits cs =
     (case cs of
        [] \<Rightarrow> Inl SyntaxError
      | c # r \<Rightarrow>
          if \<not> is_digit c then Inl SyntaxError
          else let ds = (if c = CHR ''0'' then [c] else takeWhile is_digit cs);
                   rest = drop (length ds) cs
               in if rest \<noteq> [] \<and> hd rest \<in> {CHR ''.'', CHR ''e'', CHR ''E''} then Inl Unmodelled
                  else if 9007199254740991 < digits_val ds then Inl Unmodelled
                  else Inr (digits_val ds, rest))"

definition parse_number :: "string \<Rightarrow> error + json \<times> string" where
  "parse_number cs =
     (case cs of
        [] \<Rightarrow> Inl SyntaxError
      | c # r \<Rightarrow>
          if c = CHR ''-''
          then (case parse_digits r of Inl e \<Rightarrow> Inl e | Inr (n, rest) \<Rightarrow> Inr (JNum (- n), rest))
          else (case parse_digits cs of Inl e \<Rightarrow> Inl e | Inr (n, rest) \<Rightarrow> Inr (JNum n, rest)))"

text \<open>A key that comes again replaces the value of the key and keeps its place.\<close>

fun parse_value :: "nat \<Rightarrow> string \<Rightarrow> error + json \<times> string"
  and parse_elements :: "nat \<Rightarrow> string \<Rightarrow> error + json list \<times> string"
  and parse_members :: "nat \<Rightarrow> string \<Rightarrow> error + (string \<times> json) list \<times> string"
where
  "parse_value 0 cs = Inl Unmodelled"
| "parse_value (Suc n) cs =
     (case skip_ws cs of
        [] \<Rightarrow> Inl SyntaxError
      | c # r \<Rightarrow>
          if c = CHR ''{'' then
            (case skip_ws r of
               [] \<Rightarrow> Inl SyntaxError
             | c' # r' \<Rightarrow>
                 if c' = CHR ''}'' then Inr (JObj [], r')
                 else (case parse_members n r of Inl e \<Rightarrow> Inl e
                       | Inr (kvs, rest) \<Rightarrow> Inr (JObj (assign kvs []), rest)))
          else if c = CHR ''['' then
            (case skip_ws r of
               [] \<Rightarrow> Inl SyntaxError
             | c' # r' \<Rightarrow>
                 if c' = CHR '']'' then Inr (JArr [], r')
                 else (case parse_elements n r of Inl e \<Rightarrow> Inl e
                       | Inr (vs, rest) \<Rightarrow> Inr (JArr vs, rest)))
          else if c = dquote then
            (case parse_chars r of Inl e \<Rightarrow> Inl e | Inr (s, rest) \<Rightarrow> Inr (JStr s, rest))
          else if take 4 (c # r) = ''true'' then Inr (JBool True, drop 4 (c # r))
          else if take 5 (c # r) = ''false'' then Inr (JBool False, drop 5 (c # r))
          else if take 4 (c # r) = ''null'' then Inr (JNull, drop 4 (c # r))
          else parse_number (c # r))"
| "parse_elements 0 cs = Inl Unmodelled"
| "parse_elements (Suc n) cs =
     (case parse_value n cs of
        Inl e \<Rightarrow> Inl e
      | Inr (v, r) \<Rightarrow>
          (case skip_ws r of
             [] \<Rightarrow> Inl SyntaxError
           | c # r' \<Rightarrow>
               if c = CHR '','' then
                 (case parse_elements n r' of Inl e \<Rightarrow> Inl e
                  | Inr (vs, rest) \<Rightarrow> Inr (v # vs, rest))
               else if c = CHR '']'' then Inr ([v], r')
               else Inl SyntaxError))"
| "parse_members 0 cs = Inl Unmodelled"
| "parse_members (Suc n) cs =
     (case skip_ws cs of
        [] \<Rightarrow> Inl SyntaxError
      | q # r \<Rightarrow>
          if q \<noteq> dquote then Inl SyntaxError
          else (case parse_chars r of
                  Inl e \<Rightarrow> Inl e
                | Inr (k, r1) \<Rightarrow>
                    (case skip_ws r1 of
                       [] \<Rightarrow> Inl SyntaxError
                     | c # r2 \<Rightarrow>
                         if c \<noteq> CHR '':'' then Inl SyntaxError
                         else (case parse_value n r2 of
                                 Inl e \<Rightarrow> Inl e
                               | Inr (v, r3) \<Rightarrow>
                                   (case skip_ws r3 of
                                      [] \<Rightarrow> Inl SyntaxError
                                    | d # r4 \<Rightarrow>
                                        if d = CHR '','' then
                                          (case parse_members n r4 of Inl e \<Rightarrow> Inl e
                                           | Inr (kvs, rest) \<Rightarrow> Inr ((k, v) # kvs, rest))
                                        else if d = CHR ''}'' then Inr ([(k, v)], r4)
                                        else Inl SyntaxError)))))"

text \<open>\<^verbatim>\<open>JSON.parse(text)\<close>: one value, with nothing but white space after it. The fuel
  is twice the length of the text and two; more fuel than that gives the same result
  (\<open>JSON_parse_fuel\<close> below).\<close>

definition JSON_parse :: "string \<Rightarrow> error + json" where
  "JSON_parse s =
     (case parse_value (2 * length s + 2) s of
        Inl e \<Rightarrow> Inl e
      | Inr (v, rest) \<Rightarrow> if skip_ws rest = [] then Inr v else Inl SyntaxError)"

subsection \<open>Serialisation\<close>

definition hex_digit :: "int \<Rightarrow> char" where
  "hex_digit d = (if d < 10 then char_of (48 + d) else char_of (87 + d))"

text \<open>A character inside a string literal: the two-character escapes, \<^verbatim>\<open>\u00XX\<close> for the
  other control characters, and the character itself otherwise.\<close>

definition quote_char :: "char \<Rightarrow> string" where
  "quote_char c =
     (if c = CHR 0x08 then [backslash, CHR ''b'']
      else if c = CHR 0x09 then [backslash, CHR ''t'']
      else if c = CHR 0x0A then [backslash, CHR ''n'']
      else if c = CHR 0x0C then [backslash, CHR ''f'']
      else if c = CHR 0x0D then [backslash, CHR ''r'']
      else if c = dquote then [backslash, dquote]
      else if c = backslash then [backslash, backslash]
      else if (of_char c :: int) < 32
      then [backslash, CHR ''u'', CHR ''0'', CHR ''0'',
            hex_digit (of_char c div 16), hex_digit (of_char c mod 16)]
      else [c])"

definition quote :: "string \<Rightarrow> string" where
  "quote s = [dquote] @ concat (map quote_char s) @ [dquote]"

text \<open>\<^verbatim>\<open>JSON.stringify(value, null, gap)\<close> at the indentation \<open>ind\<close>. With the empty gap
  the text has no white space; otherwise every element and member is on a line of its
  own, one gap deeper than the bracket that closes after them, and a space follows the
  colon of a member.\<close>

definition line_break :: "string \<Rightarrow> string \<Rightarrow> string" where
  "line_break gap ind = (if gap = [] then [] else newline # ind)"

definition colon :: "string \<Rightarrow> string" where
  "colon gap = (if gap = [] then '':'' else '': '')"

fun stringify :: "string \<Rightarrow> string \<Rightarrow> json \<Rightarrow> string" where
  "stringify gap ind JNull = ''null''"
| "stringify gap ind (JBool b) = (if b then ''true'' else ''false'')"
| "stringify gap ind (JNum n) = show_int n"
| "stringify gap ind (JStr s) = quote s"
| "stringify gap ind (JArr vs) =
     (if vs = [] then ''[]''
      else ''['' @ line_break gap (ind @ gap)
           @ intercalate ('','' @ line_break gap (ind @ gap)) (map (stringify gap (ind @ gap)) vs)
           @ line_break gap ind @ '']'')"
| "stringify gap ind (JObj kvs) =
     (if kvs = [] then ''{}''
      else ''{'' @ line_break gap (ind @ gap)
           @ intercalate ('','' @ line_break gap (ind @ gap))
               (map (\<lambda>kv. quote (fst kv) @ colon gap @ stringify gap (ind @ gap) (snd kv)) kvs)
           @ line_break gap ind @ ''}'')"

definition JSON_stringify :: "string \<Rightarrow> json \<Rightarrow> string" where
  "JSON_stringify gap v = stringify gap [] v"

section \<open>Loading, saving, exporting and importing\<close>

text \<open>\<^verbatim>\<open>{ investigations: [], evidence: [], version: 1 }\<close>.\<close>

definition empty_db :: json where
  "empty_db = JObj [(''investigations'', JArr []), (''evidence'', JArr []), (''version'', JNum 1)]"

text \<open>\<^verbatim>\<open>loadDB\<close>, from what \<^verbatim>\<open>localStorage.getItem\<close> returns: \<open>None\<close> is \<^verbatim>\<open>null\<close>, the slot is
  not there. An exception of the parser is caught and answered with the empty database.\<close>

definition loadDB :: "string option \<Rightarrow> error + json" where
  "loadDB raw =
     (case raw of
        None \<Rightarrow> Inr empty_db
      | Some s \<Rightarrow>
          if s = [] then Inr empty_db
          else (case JSON_parse s of
                  Inr v \<Rightarrow> Inr v
                | Inl e \<Rightarrow> if e = Unmodelled then Inl Unmodelled else Inr empty_db))"

text \<open>\<^verbatim>\<open>saveDB\<close>: the content of the slot after \<^verbatim>\<open>localStorage.setItem\<close>, which is
  \<^verbatim>\<open>JSON.stringify(db)\<close>.\<close>

definition saveDB :: "json \<Rightarrow> string option" where
  "saveDB db = Some (JSON_stringify [] db)"

text \<open>\<^verbatim>\<open>exportJSON\<close>: the text of the file, \<^verbatim>\<open>JSON.stringify(db, null, 2)\<close>.\<close>

definition exportJSON :: "json \<Rightarrow> string" where
  "exportJSON db = JSON_stringify ''  '' db"

fun typeof :: "json \<Rightarrow> string" where
  "typeof JNull = ''object''"
| "typeof (JBool b) = ''boolean''"
| "typeof (JNum n) = ''number''"
| "typeof (JStr s) = ''string''"
| "typeof (JArr xs) = ''object''"
| "typeof (JObj kvs) = ''object''"

fun isArray :: "json option \<Rightarrow> bool" where
  "isArray (Some (JArr xs)) = True"
| "isArray v = False"

text \<open>The \<^verbatim>\<open>try\<close> block of \<^verbatim>\<open>importJSON\<close> up to \<^verbatim>\<open>setDb(imported)\<close>: the value that is to
  replace the database, or what was thrown.\<close>

definition import_checked :: "string \<Rightarrow> error + json" where
  "import_checked content =
     (case JSON_parse content of
        Inl e \<Rightarrow> Inl e
      | Inr imported \<Rightarrow>
          if \<not> truthy (Some imported) \<or> typeof imported \<noteq> ''object'' then Inl Invalid_file
          else (case get_prop imported ''investigations'' of
                  Inl e \<Rightarrow> Inl e
                | Inr i \<Rightarrow>
                    if \<not> isArray i then Inl Missing_keys
                    else (case get_prop imported ''evidence'' of
                            Inl e \<Rightarrow> Inl e
                          | Inr ev \<Rightarrow> if \<not> isArray ev then Inl Missing_keys else Inr imported)))"

text \<open>What \<^verbatim>\<open>alert\<close> shows.\<close>

datatype notice = Import_successful | Import_failed error

text \<open>\<^verbatim>\<open>importJSON\<close>, from the text of the file and the current database: the database
  after the handler has run, and the notice. The \<^verbatim>\<open>catch\<close> block leaves the database as it
  is.\<close>

definition importJSON :: "string \<Rightarrow> json \<Rightarrow> error + json \<times> notice" where
  "importJSON content db =
     (case import_checked content of
        Inr imported \<Rightarrow> Inr (imported, Import_successful)
      | Inl e \<Rightarrow> if e = Unmodelled then Inl Unmodelled else Inr (db, Import_failed e))"

section \<open>Repository operations\<close>

text \<open>
  Each operation is the function that the source hands to \<^verbatim>\<open>setDb\<close>: from the previous
  database to the next one, or to the error the updater throws. The identifier from
  \<^verbatim>\<open>uuid()\<close>, the time from \<^verbatim>\<open>Date.now()\<close> and the answer of \<^verbatim>\<open>confirm\<close> are arguments.
\<close>

text \<open>\<^verbatim>\<open>prev.investigations\<close> or \<^verbatim>\<open>prev.evidence\<close> as the receiver of an array method.\<close>

definition collection :: "json \<Rightarrow> string \<Rightarrow> error + json list" where
  "collection prev k = (case get_prop prev k of Inl e \<Rightarrow> Inl e | Inr a \<Rightarrow> array_of a)"

text \<open>\<^verbatim>\<open>(i) => i.id !== id\<close> and \<^verbatim>\<open>(e) => e.investigationId !== id\<close>.\<close>

definition differs :: "string \<Rightarrow> string \<Rightarrow> json \<Rightarrow> error + bool" where
  "differs k ident x =
     (case get_prop x k of Inl e \<Rightarrow> Inl e | Inr v \<Rightarrow> Inr (\<not> strict_eq v (Some (JStr ident))))"

definition deleteInvestigation :: "bool \<Rightarrow> string \<Rightarrow> json \<Rightarrow> error + json" where
  "deleteInvestigation confirmed ident prev =
     (if \<not> confirmed then Inr prev
      else case collection prev ''investigations'' of Inl e \<Rightarrow> Inl e
        | Inr invs \<Rightarrow> (case filterE (differs ''id'' ident) invs of Inl e \<Rightarrow> Inl e
        | Inr invs' \<Rightarrow> (case collection prev ''evidence'' of Inl e \<Rightarrow> Inl e
        | Inr evs \<Rightarrow> (case filterE (differs ''investigationId'' ident) evs of Inl e \<Rightarrow> Inl e
        | Inr evs' \<Rightarrow>
            Inr (JObj (AList.update ''evidence'' (JArr evs')
                        (AList.update ''investigations'' (JArr invs') (own_props prev))))))))"

definition deleteEvidence :: "bool \<Rightarrow> string \<Rightarrow> json \<Rightarrow> error + json" where
  "deleteEvidence confirmed ident prev =
     (if \<not> confirmed then Inr prev
      else case collection prev ''evidence'' of Inl e \<Rightarrow> Inl e
        | Inr evs \<Rightarrow> (case filterE (differs ''id'' ident) evs of Inl e \<Rightarrow> Inl e
        | Inr evs' \<Rightarrow> Inr (JObj (AList.update ''evidence'' (JArr evs') (own_props prev)))))"

text \<open>\<^verbatim>\<open>(i) => (i.id === id ? { ...i, ...data, updatedAt: now } : i)\<close>.\<close>

definition touch :: "string \<Rightarrow> int \<Rightarrow> json \<Rightarrow> json \<Rightarrow> error + json" where
  "touch ident now data i =
     (case get_prop i ''id'' of Inl e \<Rightarrow> Inl e
      | Inr v \<Rightarrow>
          Inr (if strict_eq v (Some (JStr ident))
               then JObj (AList.update ''updatedAt'' (JNum now)
                           (assign (own_props data) (own_props i)))
               else i))"

definition updateInvestigation :: "string \<Rightarrow> int \<Rightarrow> json \<Rightarrow> json \<Rightarrow> error + json" where
  "updateInvestigation ident now data prev =
     (case collection prev ''investigations'' of Inl e \<Rightarrow> Inl e
      | Inr invs \<Rightarrow> (case mapE (touch ident now data) invs of Inl e \<Rightarrow> Inl e
      | Inr invs' \<Rightarrow>
          Inr (JObj (AList.update ''investigations'' (JArr invs') (own_props prev)))))"

definition updateEvidence :: "string \<Rightarrow> int \<Rightarrow> json \<Rightarrow> json \<Rightarrow> error + json" where
  "updateEvidence ident now data prev =
     (case collection prev ''evidence'' of Inl e \<Rightarrow> Inl e
      | Inr evs \<Rightarrow> (case mapE (touch ident now data) evs of Inl e \<Rightarrow> Inl e
      | Inr evs' \<Rightarrow> Inr (JObj (AList.update ''evidence'' (JArr evs') (own_props prev)))))"

text \<open>\<^verbatim>\<open>{ id: uuid(), createdAt: now, updatedAt: now, ...data }\<close>, put in front of
  \<^verbatim>\<open>...prev.investigations\<close>.\<close>

definition createInvestigation :: "string \<Rightarrow> int \<Rightarrow> json \<Rightarrow> json \<Rightarrow> error + json" where
  "createInvestigation uid now data prev =
     (let inv = JObj (assign (own_props data)
                  [(''id'', JStr uid), (''createdAt'', JNum now), (''updatedAt'', JNum now)])
      in case get_prop prev ''investigations'' of Inl e \<Rightarrow> Inl e
         | Inr a \<Rightarrow> (case iterate a of Inl e \<Rightarrow> Inl e
         | Inr invs \<Rightarrow>
             Inr (JObj (AList.update ''investigations'' (JArr (inv # invs)) (own_props prev)))))"

text \<open>\<^verbatim>\<open>{ id: uuid(), investigationId: invId, createdAt: now, updatedAt: now, entries: [],
  ...data }\<close>, put in front of \<^verbatim>\<open>...prev.evidence\<close>.\<close>

definition createEvidence :: "string \<Rightarrow> string \<Rightarrow> int \<Rightarrow> json \<Rightarrow> json \<Rightarrow> error + json" where
  "createEvidence uid invId now data prev =
     (let ev = JObj (assign (own_props data)
                 [(''id'', JStr uid), (''investigationId'', JStr invId),
                  (''createdAt'', JNum now), (''updatedAt'', JNum now), (''entries'', JArr [])])
      in case get_prop prev ''evidence'' of Inl e \<Rightarrow> Inl e
         | Inr a \<Rightarrow> (case iterate a of Inl e \<Rightarrow> Inl e
         | Inr evs \<Rightarrow> Inr (JObj (AList.update ''evidence'' (JArr (ev # evs)) (own_props prev)))))"

text \<open>\<^verbatim>\<open>{ id: uuid(), timestamp: now, ...data }\<close>.\<close>

definition new_entry :: "string \<Rightarrow> int \<Rightarrow> json \<Rightarrow> json" where
  "new_entry uid now data =
     JObj (assign (own_props data) [(''id'', JStr uid), (''timestamp'', JNum now)])"

text \<open>\<^verbatim>\<open>(e) => e.id === evidenceId
  ? { ...e, entries: [entry, ...(e.entries || [])], updatedAt: now } : e\<close>.\<close>

definition log_entry :: "string \<Rightarrow> int \<Rightarrow> json \<Rightarrow> json \<Rightarrow> error + json" where
  "log_entry evidenceId now entry e =
     (case get_prop e ''id'' of Inl err \<Rightarrow> Inl err
      | Inr v \<Rightarrow>
          if strict_eq v (Some (JStr evidenceId))
          then (case get_prop e ''entries'' of Inl err \<Rightarrow> Inl err
                | Inr old \<Rightarrow> (case iterate (Some (or_else old (JArr []))) of Inl err \<Rightarrow> Inl err
                | Inr ens \<Rightarrow>
                    Inr (JObj (AList.update ''updatedAt'' (JNum now)
                                (AList.update ''entries'' (JArr (entry # ens)) (own_props e))))))
          else Inr e)"

definition addEntry :: "string \<Rightarrow> string \<Rightarrow> int \<Rightarrow> json \<Rightarrow> json \<Rightarrow> error + json" where
  "addEntry evidenceId uid now data prev =
     (case collection prev ''evidence'' of Inl e \<Rightarrow> Inl e
      | Inr evs \<Rightarrow> (case mapE (log_entry evidenceId now (new_entry uid now data)) evs of
          Inl e \<Rightarrow> Inl e
        | Inr evs' \<Rightarrow> Inr (JObj (AList.update ''evidence'' (JArr evs') (own_props prev)))))"

section \<open>Derived views\<close>

text \<open>\<^verbatim>\<open>s.toLowerCase()\<close> on the characters of Latin-1: the capital letters are \<open>A\<close> to \<open>Z\<close>
  (65 to 90) and the accented capitals from 192 to 222 but for the multiplication sign
  215; the small letter of each is 32 further on. Every other character is left as it is.
  \<^verbatim>\<open>s.includes(q)\<close>: \<open>q\<close> occurs in \<open>s\<close> as a contiguous run of characters.\<close>

definition lower_char :: "char \<Rightarrow> char" where
  "lower_char c =
     (let n = of_char c :: nat
      in if (65 \<le> n \<and> n \<le> 90) \<or> (192 \<le> n \<and> n \<le> 222 \<and> n \<noteq> 215)
         then char_of (n + 32) else c)"

definition toLowerCase :: "string \<Rightarrow> string" where
  "toLowerCase s = map lower_char s"

fun includes_str :: "string \<Rightarrow> string \<Rightarrow> bool" where
  "includes_str [] q = (q = [])"
| "includes_str (c # cs) q = (take (length q) (c # cs) = q \<or> includes_str cs q)"

text \<open>\<^verbatim>\<open>(i) => (statusFilter === "All" ? true : i.status === statusFilter)\<close>.\<close>

definition status_passes :: "string \<Rightarrow> json \<Rightarrow> error + bool" where
  "status_passes statusFilter i =
     (if statusFilter = ''All'' then Inr True
      else case get_prop i ''status'' of Inl e \<Rightarrow> Inl e
           | Inr v \<Rightarrow> Inr (strict_eq v (Some (JStr statusFilter))))"

text \<open>\<^verbatim>\<open>(i) => !q ? true : [i.title, i.caseNumber, i.description, ...(i.tags || [])]
  .filter(Boolean).some((f) => String(f).toLowerCase().includes(q))\<close>.\<close>

definition query_passes :: "string \<Rightarrow> json \<Rightarrow> error + bool" where
  "query_passes q i =
     (if q = [] then Inr True
      else case get_prop i ''title'' of Inl e \<Rightarrow> Inl e
        | Inr title \<Rightarrow> (case get_prop i ''caseNumber'' of Inl e \<Rightarrow> Inl e
        | Inr caseNumber \<Rightarrow> (case get_prop i ''description'' of Inl e \<Rightarrow> Inl e
        | Inr description \<Rightarrow> (case get_prop i ''tags'' of Inl e \<Rightarrow> Inl e
        | Inr tags \<Rightarrow> (case iterate (Some (or_else tags (JArr []))) of Inl e \<Rightarrow> Inl e
        | Inr ts \<Rightarrow>
            Inr (list_ex (\<lambda>f. includes_str (toLowerCase (to_string (the f))) q)
                   (filter truthy ([title, caseNumber, description] @ map Some ts))))))))"

text \<open>The operand \<^verbatim>\<open>x.updatedAt || x.createdAt\<close> of the comparator, as the number that the
  subtraction makes of it; \<open>None\<close> is \<^verbatim>\<open>NaN\<close>.\<close>

fun to_number :: "json option \<Rightarrow> error + int option" where
  "to_number None = Inr None"
| "to_number (Some JNull) = Inr (Some 0)"
| "to_number (Some (JBool b)) = Inr (Some (if b then 1 else 0))"
| "to_number (Some (JNum n)) = Inr (Some n)"
| "to_number (Some v) = Inl Unmodelled"

definition stamp :: "json \<Rightarrow> error + int option" where
  "stamp x =
     (case get_prop x ''updatedAt'' of Inl e \<Rightarrow> Inl e
      | Inr u \<Rightarrow> if truthy u then to_number u
                else (case get_prop x ''createdAt'' of Inl e \<Rightarrow> Inl e | Inr c \<Rightarrow> to_number c))"

text \<open>\<^verbatim>\<open>.sort((a, b) => (b.updatedAt || b.createdAt) - (a.updatedAt || a.createdAt))\<close>. An
  array of fewer than two elements is returned without a call of the comparator. With
  numbers on every element the comparator is consistent and the sort, which is stable,
  has one result: the elements in descending order of that number, equal ones in their
  former order. With \<^verbatim>\<open>NaN\<close> on every element all comparisons are ties and the order is
  kept. A mix of both leaves the order to the implementation.\<close>

definition the_stamp :: "json \<Rightarrow> int" where
  "the_stamp x = (case stamp x of Inr (Some n) \<Rightarrow> n | r \<Rightarrow> 0)"

definition sort_recent :: "json list \<Rightarrow> error + json list" where
  "sort_recent xs =
     (if length xs \<le> 1 then Inr xs
      else case mapE stamp xs of Inl e \<Rightarrow> Inl e
        | Inr ks \<Rightarrow>
            if list_all (\<lambda>k. k \<noteq> None) ks then Inr (sort_key (\<lambda>x. - the_stamp x) xs)
            else if list_all (\<lambda>k. k = None) ks then Inr xs
            else Inl Unmodelled)"

definition filteredInvestigations :: "string \<Rightarrow> string \<Rightarrow> json \<Rightarrow> error + json list" where
  "filteredInvestigations query statusFilter db =
     (let q = toLowerCase query
      in case collection db ''investigations'' of Inl e \<Rightarrow> Inl e
        | Inr invs \<Rightarrow> (case filterE (status_passes statusFilter) invs of Inl e \<Rightarrow> Inl e
        | Inr by_status \<Rightarrow> (case filterE (query_passes q) by_status of Inl e \<Rightarrow> Inl e
        | Inr by_query \<Rightarrow> sort_recent by_query)))"

section \<open>CSV export\<close>

text \<open>\<^verbatim>\<open>/[",\n]/.test(s)\<close> and \<^verbatim>\<open>s.replaceAll('"', '""')\<close>.\<close>

definition needsQuotes :: "string \<Rightarrow> bool" where
  "needsQuotes s = list_ex (\<lambda>c. c = dquote \<or> c = CHR '','' \<or> c = newline) s"

definition double_quotes :: "string \<Rightarrow> string" where
  "double_quotes s = concat (map (\<lambda>c. if c = dquote then [dquote, dquote] else [c]) s)"

definition csvSafe :: "json option \<Rightarrow> string" where
  "csvSafe s =
     (if s = None \<or> s = Some JNull then []
      else let out = double_quotes (to_string (the s))
           in if needsQuotes (to_string (the s)) then [dquote] @ out @ [dquote] else out)"

text \<open>\<^verbatim>\<open>inv?.k\<close>: \<^verbatim>\<open>undefined\<close> when \<^verbatim>\<open>inv\<close> is \<^verbatim>\<open>undefined\<close> or \<^verbatim>\<open>null\<close>.\<close>

fun opt_prop :: "json option \<Rightarrow> string \<Rightarrow> error + json option" where
  "opt_prop None k = Inr None"
| "opt_prop (Some JNull) k = Inr None"
| "opt_prop (Some v) k = get_prop v k"

text \<open>\<^verbatim>\<open>xs.join(sep)\<close>: \<^verbatim>\<open>null\<close> elements print as nothing, the others as \<^verbatim>\<open>String\<close> prints
  them.\<close>

definition join :: "string \<Rightarrow> json \<Rightarrow> error + string" where
  "join sep v =
     (case array_of (Some v) of Inl e \<Rightarrow> Inl e
      | Inr xs \<Rightarrow> Inr (intercalate sep (map (\<lambda>x. if x = JNull then [] else to_string x) xs)))"

text \<open>\<^verbatim>\<open>new Date(ts).toISOString()\<close>. The constructor takes a number as the time value (and
  \<^verbatim>\<open>null\<close>, \<^verbatim>\<open>false\<close>, \<^verbatim>\<open>true\<close> as 0, 0, 1); \<^verbatim>\<open>undefined\<close> and a number beyond
  \<open>8.64e15\<close> milliseconds give an invalid date, on which \<^verbatim>\<open>toISOString\<close> throws a
  \<^verbatim>\<open>RangeError\<close>. The text of a valid date is the argument \<open>fmt\<close>.\<close>

definition toISOString :: "(int \<Rightarrow> string) \<Rightarrow> json option \<Rightarrow> error + string" where
  "toISOString fmt ts =
     (case to_number ts of Inl e \<Rightarrow> Inl e
      | Inr None \<Rightarrow> Inl RangeError
      | Inr (Some n) \<Rightarrow> if \<bar>n\<bar> \<le> 8640000000000000 then Inr (fmt n) else Inl RangeError)"

text \<open>\<^verbatim>\<open>(a) => `${a.label || "link"}:${a.url}`\<close>.\<close>

definition attachment_text :: "json \<Rightarrow> error + string" where
  "attachment_text a =
     thenE (get_prop a ''label'') (\<lambda>label.
     thenE (get_prop a ''url'') (\<lambda>url.
     Inr (to_string (or_else label (JStr ''link'')) @ '':''
          @ (case url of None \<Rightarrow> ''undefined'' | Some u \<Rightarrow> to_string u))))"

text \<open>\<^verbatim>\<open>db.investigations.find((i) => i.id === ev.investigationId)\<close>.\<close>

definition find_investigation :: "json \<Rightarrow> json \<Rightarrow> error + json option" where
  "find_investigation db ev =
     thenE (collection db ''investigations'') (\<lambda>invs.
     findE (\<lambda>i. thenE (get_prop i ''id'') (\<lambda>a.
                thenE (get_prop ev ''investigationId'') (\<lambda>b. Inr (strict_eq a b)))) invs)"

text \<open>The array pushed for one entry \<open>en\<close> of the evidence \<open>ev\<close>.\<close>

definition entry_row :: "(int \<Rightarrow> string) \<Rightarrow> json option \<Rightarrow> json \<Rightarrow> json \<Rightarrow> error + json list" where
  "entry_row fmt parent ev en =
     thenE (opt_prop parent ''caseNumber'') (\<lambda>caseNumber.
     thenE (opt_prop parent ''title'') (\<lambda>investigationTitle.
     thenE (opt_prop parent ''status'') (\<lambda>investigationStatus.
     thenE (opt_prop parent ''tags'') (\<lambda>itags.
     thenE (join '';'' (or_else itags (JArr []))) (\<lambda>investigationTags.
     thenE (get_prop ev ''title'') (\<lambda>evidenceTitle.
     thenE (get_prop ev ''type'') (\<lambda>evidenceType.
     thenE (get_prop ev ''tags'') (\<lambda>etags.
     thenE (join '';'' (or_else etags (JArr []))) (\<lambda>evidenceTags.
     thenE (get_prop en ''timestamp'') (\<lambda>ts.
     thenE (toISOString fmt ts) (\<lambda>entryTimestamp.
     thenE (get_prop en ''author'') (\<lambda>entryAuthor.
     thenE (get_prop en ''body'') (\<lambda>entryBody.
     thenE (get_prop en ''attachments'') (\<lambda>atts.
     thenE (array_of (Some (or_else atts (JArr [])))) (\<lambda>links.
     thenE (mapE attachment_text links) (\<lambda>pairs.
     Inr [or_else caseNumber (JStr []), or_else investigationTitle (JStr []),
          or_else investigationStatus (JStr []), JStr investigationTags,
          or_else evidenceTitle (JStr []), or_else evidenceType (JStr []), JStr evidenceTags,
          JStr entryTimestamp, or_else entryAuthor (JStr []), or_else entryBody (JStr []),
          JStr (intercalate '' | '' pairs)]))))))))))))))))"

text \<open>The body of \<^verbatim>\<open>db.evidence.forEach((ev) => ...)\<close>: the rows of one evidence.\<close>

definition evidence_rows :: "(int \<Rightarrow> string) \<Rightarrow> json \<Rightarrow> json \<Rightarrow> error + json list list" where
  "evidence_rows fmt db ev =
     thenE (find_investigation db ev) (\<lambda>parent.
     thenE (get_prop ev ''entries'') (\<lambda>entries.
     thenE (array_of (Some (or_else entries (JArr [])))) (\<lambda>ens.
     mapE (entry_row fmt parent ev) ens)))"

definition header :: "json list" where
  "header = map JStr [''caseNumber'', ''investigationTitle'', ''investigationStatus'',
     ''investigationTags'', ''evidenceTitle'', ''evidenceType'', ''evidenceTags'',
     ''entryTimestamp'', ''entryAuthor'', ''entryBody'', ''attachments'']"

definition csv_rows :: "(int \<Rightarrow> string) \<Rightarrow> json \<Rightarrow> error + json list list" where
  "csv_rows fmt db =
     thenE (collection db ''evidence'') (\<lambda>evs.
     thenE (mapE (evidence_rows fmt db) evs) (\<lambda>rows.
     Inr (header # concat rows)))"

text \<open>\<^verbatim>\<open>rows.map((r) => r.map(csvSafe).join(",")).join("\n")\<close>: the text of the file.\<close>

definition exportCSV :: "(int \<Rightarrow> string) \<Rightarrow> json \<Rightarrow> error + string" where
  "exportCSV fmt db =
     thenE (csv_rows fmt db) (\<lambda>rows.
     Inr (intercalate [newline] (map (\<lambda>r. intercalate '','' (map (\<lambda>c. csvSafe (Some c)) r)) rows)))"

section \<open>The operations as a transition system\<close>

datatype action =
    CreateInvestigation string json
  | UpdateInvestigation string json
  | DeleteInvestigation bool string
  | CreateEvidence string string json
  | UpdateEvidence string json
  | DeleteEvidence bool string
  | AddEntry string string json
  | ImportJSON string

text \<open>One user action at the time \<open>now\<close>.\<close>

fun perform :: "int \<Rightarrow> action \<Rightarrow> json \<Rightarrow> error + json" where
  "perform now (CreateInvestigation uid data) db = createInvestigation uid now data db"
| "perform now (UpdateInvestigation ident data) db = updateInvestigation ident now data db"
| "perform now (DeleteInvestigation confirmed ident) db = deleteInvestigation confirmed ident db"
| "perform now (CreateEvidence uid invId data) db = createEvidence uid invId now data db"
| "perform now (UpdateEvidence ident data) db = updateEvidence ident now data db"
| "perform now (DeleteEvidence confirmed ident) db = deleteEvidence confirmed ident db"
| "perform now (AddEntry evidenceId uid data) db = addEntry evidenceId uid now data db"
| "perform now (ImportJSON content) db =
     (case importJSON content db of Inl e \<Rightarrow> Inl e | Inr (db', n) \<Rightarrow> Inr db')"

fun run :: "(int \<times> action) list \<Rightarrow> json \<Rightarrow> error + json" where
  "run [] db = Inr db"
| "run ((now, a) # steps) db =
     (case perform now a db of Inl e \<Rightarrow> Inl e | Inr db' \<Rightarrow> run steps db')"

section \<open>The vocabulary of the properties\<close>

subsection \<open>Reading a database\<close>

text \<open>The value of \<^verbatim>\<open>x.k\<close> where the read gives one, \<^verbatim>\<open>undefined\<close> otherwise.\<close>

definition read :: "json \<Rightarrow> string \<Rightarrow> json option" where
  "read x k = (case get_prop x k of Inl e \<Rightarrow> None | Inr v \<Rightarrow> v)"

text \<open>The database has the array \<open>xs\<close> under the key \<open>k\<close>, and no element of it is
  \<^verbatim>\<open>null\<close>.\<close>

definition holds :: "json \<Rightarrow> string \<Rightarrow> json list \<Rightarrow> bool" where
  "holds db k xs \<longleftrightarrow> collection db k = Inr xs \<and> JNull \<notin> set xs"

text \<open>The value is an object with the two sequences that the import asks for.\<close>

definition is_database :: "json \<Rightarrow> bool" where
  "is_database v =
     (case v of
        JObj kvs \<Rightarrow> isArray (map_of kvs ''investigations'') \<and> isArray (map_of kvs ''evidence'')
      | w \<Rightarrow> False)"

text \<open>What \<^verbatim>\<open>{ ...i, ...fields, updatedAt: now }\<close> is to \<open>i\<close>, property by property.\<close>

definition merged :: "int \<Rightarrow> (string \<times> json) list \<Rightarrow> json \<Rightarrow> json \<Rightarrow> bool" where
  "merged now fields i i' \<longleftrightarrow>
     read i' ''updatedAt'' = Some (JNum now)
     \<and> (\<forall>k. k \<noteq> ''updatedAt'' \<longrightarrow>
           read i' k = (case map_of fields k of Some v \<Rightarrow> Some v | None \<Rightarrow> read i k))"

text \<open>\<^verbatim>\<open>e.entries || []\<close> where it is an array or falsy.\<close>

definition entries_of :: "json \<Rightarrow> json list" where
  "entries_of e = (case read e ''entries'' of Some (JArr ens) \<Rightarrow> ens | v \<Rightarrow> [])"

text \<open>The \<^verbatim>\<open>entries\<close> of an evidence record are an array, or absent (or another falsy value).\<close>

definition threaded :: "json \<Rightarrow> bool" where
  "threaded e = (case read e ''entries'' of Some (JArr ens) \<Rightarrow> True | v \<Rightarrow> \<not> truthy v)"

text \<open>What \<^verbatim>\<open>{ ...e, entries: [entry, ...(e.entries || [])], updatedAt: now }\<close> is to \<open>e\<close>.\<close>

definition logged :: "int \<Rightarrow> json \<Rightarrow> json \<Rightarrow> json \<Rightarrow> bool" where
  "logged now entry e e' \<longleftrightarrow>
     read e' ''entries'' = Some (JArr (entry # entries_of e))
     \<and> read e' ''updatedAt'' = Some (JNum now)
     \<and> (\<forall>k. k \<noteq> ''entries'' \<and> k \<noteq> ''updatedAt'' \<longrightarrow> read e' k = read e k)"

subsection \<open>Reading an investigation\<close>

text \<open>The strings that the search looks into: title, case number, description and tags.\<close>

fun str_of :: "json option \<Rightarrow> string list" where
  "str_of (Some (JStr s)) = [s]"
| "str_of v = []"

definition tags_of :: "json \<Rightarrow> json list" where
  "tags_of i = (case read i ''tags'' of Some (JArr ts) \<Rightarrow> ts | v \<Rightarrow> [])"




text \<open>The fields of the search are strings where they are present, and the tags an array
  of strings.\<close>

fun is_text :: "json option \<Rightarrow> bool" where
  "is_text None = True"
| "is_text (Some (JStr s)) = True"
| "is_text v = False"





subsection \<open>Reading the rows\<close>

text \<open>What the export writes for a record that is as the data model has it: string
  fields, tags that are an array of strings, entries with a time value, attachments with a
  string \<^verbatim>\<open>url\<close>. An evidence is an object; an entry and an attachment are objects by the
  property that they must have.\<close>

fun is_record :: "json \<Rightarrow> bool" where
  "is_record (JObj kvs) = True"
| "is_record v = False"

definition tagged :: "json \<Rightarrow> bool" where
  "tagged x =
     (case read x ''tags'' of None \<Rightarrow> True
      | Some (JArr ts) \<Rightarrow> list_all (\<lambda>t. is_text (Some t)) ts
      | v \<Rightarrow> False)"

definition wf_investigation :: "json \<Rightarrow> bool" where
  "wf_investigation i \<longleftrightarrow>
     is_text (read i ''caseNumber'') \<and> is_text (read i ''title'') \<and> is_text (read i ''status'')
     \<and> tagged i"

definition wf_link :: "json \<Rightarrow> bool" where
  "wf_link a \<longleftrightarrow>
     a \<noteq> JNull \<and> is_text (read a ''label'')
     \<and> (case read a ''url'' of Some (JStr u) \<Rightarrow> True | v \<Rightarrow> False)"

definition wf_entry :: "json \<Rightarrow> bool" where
  "wf_entry en \<longleftrightarrow>
     en \<noteq> JNull
     \<and> (case read en ''timestamp'' of Some (JNum n) \<Rightarrow> \<bar>n\<bar> \<le> 8640000000000000 | v \<Rightarrow> False)
     \<and> is_text (read en ''author'') \<and> is_text (read en ''body'')
     \<and> (case read en ''attachments'' of None \<Rightarrow> True
         | Some (JArr xs) \<Rightarrow> list_all wf_link xs
         | v \<Rightarrow> False)"

definition wf_evidence :: "json \<Rightarrow> bool" where
  "wf_evidence ev \<longleftrightarrow>
     is_record ev
     \<and> is_text (read ev ''title'') \<and> is_text (read ev ''type'') \<and> tagged ev
     \<and> (case read ev ''entries'' of None \<Rightarrow> True
         | Some (JArr ens) \<Rightarrow> list_all wf_entry ens
         | v \<Rightarrow> False)"

text \<open>A string property of a record, empty where the record or the property is absent.\<close>

definition text_at :: "json option \<Rightarrow> string \<Rightarrow> string" where
  "text_at x k = (case x of None \<Rightarrow> [] | Some v \<Rightarrow> (case read v k of Some (JStr s) \<Rightarrow> s | r \<Rightarrow> []))"

definition tag_texts :: "json option \<Rightarrow> string list" where
  "tag_texts x = (case x of None \<Rightarrow> [] | Some v \<Rightarrow> concat (map (\<lambda>t. str_of (Some t)) (tags_of v)))"

definition attachments_of :: "json \<Rightarrow> json list" where
  "attachments_of en = (case read en ''attachments'' of Some (JArr xs) \<Rightarrow> xs | v \<Rightarrow> [])"

definition time_of :: "json \<Rightarrow> int" where
  "time_of en = (case read en ''timestamp'' of Some (JNum n) \<Rightarrow> n | v \<Rightarrow> 0)"

text \<open>An attachment as \<open>label:url\<close>, the word \<open>link\<close> standing for a blank label.\<close>

definition pair_text :: "json \<Rightarrow> string" where
  "pair_text a =
     (if text_at (Some a) ''label'' = [] then ''link'' else text_at (Some a) ''label'')
     @ '':'' @ text_at (Some a) ''url''"

text \<open>The first investigation whose \<^verbatim>\<open>id\<close> is the \<^verbatim>\<open>investigationId\<close> of the evidence.\<close>

definition parent_of :: "json list \<Rightarrow> json \<Rightarrow> json option" where
  "parent_of invs ev = find (\<lambda>i. strict_eq (read i ''id'') (read ev ''investigationId'')) invs"

definition column_names :: "string list" where
  "column_names = [''caseNumber'', ''investigationTitle'', ''investigationStatus'',
     ''investigationTags'', ''evidenceTitle'', ''evidenceType'', ''evidenceTags'',
     ''entryTimestamp'', ''entryAuthor'', ''entryBody'', ''attachments'']"

text \<open>The row of one entry, column by column.\<close>

definition line :: "(int \<Rightarrow> string) \<Rightarrow> json option \<Rightarrow> json \<Rightarrow> json \<Rightarrow> string list" where
  "line fmt parent ev en =
     [text_at parent ''caseNumber'', text_at parent ''title'', text_at parent ''status'',
      intercalate '';'' (tag_texts parent),
      text_at (Some ev) ''title'', text_at (Some ev) ''type'', intercalate '';'' (tag_texts (Some ev)),
      fmt (time_of en), text_at (Some en) ''author'', text_at (Some en) ''body'',
      intercalate '' | '' (map pair_text (attachments_of en))]"

text \<open>The table: the column names, then for every evidence in turn one row for each of
  its entries.\<close>

definition sheet :: "(int \<Rightarrow> string) \<Rightarrow> json list \<Rightarrow> json list \<Rightarrow> string list list" where
  "sheet fmt invs evs =
     column_names
     # concat (map (\<lambda>ev. map (line fmt (parent_of invs ev) ev) (entries_of ev)) evs)"

subsection \<open>Ordered times\<close>

text \<open>A record has its two times, and \<^verbatim>\<open>updatedAt\<close> is not before \<^verbatim>\<open>createdAt\<close>.\<close>

definition ordered :: "json \<Rightarrow> bool" where
  "ordered x =
     (case read x ''createdAt'' of
        Some (JNum c) \<Rightarrow> (case read x ''updatedAt'' of Some (JNum u) \<Rightarrow> c \<le> u | v \<Rightarrow> False)
      | v \<Rightarrow> False)"

text \<open>The database has its two sequences, and every investigation and every evidence in
  them is ordered.\<close>

definition consistent :: "json \<Rightarrow> bool" where
  "consistent db =
     (case collection db ''investigations'' of
        Inr invs \<Rightarrow>
          (case collection db ''evidence'' of
             Inr evs \<Rightarrow> list_all ordered invs \<and> list_all ordered evs
           | Inl e \<Rightarrow> False)
      | Inl e \<Rightarrow> False)"

text \<open>The payload of a form carries neither of the two times.\<close>

definition unstamped :: "json \<Rightarrow> bool" where
  "unstamped data \<longleftrightarrow>
     ''createdAt'' \<notin> set (map fst (own_props data))
     \<and> ''updatedAt'' \<notin> set (map fst (own_props data))"

text \<open>The clock does not read less than a \<^verbatim>\<open>createdAt\<close> of a record with the id.\<close>

definition not_before :: "int \<Rightarrow> string \<Rightarrow> json list \<Rightarrow> bool" where
  "not_before now ident xs =
     list_all (\<lambda>x. read x ''id'' = Some (JStr ident) \<longrightarrow>
                    (case read x ''createdAt'' of Some (JNum c) \<Rightarrow> c \<le> now | v \<Rightarrow> True)) xs"

text \<open>The conditions under which a step keeps the order: a payload without times of its
  own, a clock that is not behind the record it touches, an imported file that is itself
  consistent.\<close>

fun admissible :: "int \<Rightarrow> action \<Rightarrow> json \<Rightarrow> bool" where
  "admissible now (CreateInvestigation uid data) db = unstamped data"
| "admissible now (UpdateInvestigation ident data) db =
     (''createdAt'' \<notin> set (map fst (own_props data))
      \<and> (case collection db ''investigations'' of
            Inr invs \<Rightarrow> not_before now ident invs | Inl e \<Rightarrow> True))"
| "admissible now (DeleteInvestigation confirmed ident) db = True"
| "admissible now (CreateEvidence uid invId data) db = unstamped data"
| "admissible now (UpdateEvidence ident data) db =
     (''createdAt'' \<notin> set (map fst (own_props data))
      \<and> (case collection db ''evidence'' of
            Inr evs \<Rightarrow> not_before now ident evs | Inl e \<Rightarrow> True))"
| "admissible now (DeleteEvidence confirmed ident) db = True"
| "admissible now (AddEntry evidenceId uid data) db =
     (case collection db ''evidence'' of
        Inr evs \<Rightarrow> not_before now evidenceId evs | Inl e \<Rightarrow> True)"
| "admissible now (ImportJSON content) db =
     (case import_checked content of Inr v \<Rightarrow> consistent v | Inl e \<Rightarrow> True)"

fun steady :: "(int \<times> action) list \<Rightarrow> json \<Rightarrow> bool" where
  "steady [] db = True"
| "steady ((now, a) # steps) db =
     (admissible now a db
      \<and> (case perform now a db of Inl e \<Rightarrow> True | Inr db' \<Rightarrow> steady steps db'))"

subsection \<open>Values and their texts\<close>




text \<open>What may follow a value inside a text: a comma, a closing bracket, white space or
  nothing.\<close>

definition delimited :: "string \<Rightarrow> bool" where
  "delimited rest =
     (case rest of [] \<Rightarrow> True
      | c # r \<Rightarrow> c = CHR '','' \<or> c = CHR '']'' \<or> c = CHR ''}'' \<or> is_ws c)"

section \<open>Properties\<close>

subsection \<open>Quoting a cell\<close>

lemma double_quotes_plain: "dquote \<notin> set s \<Longrightarrow> double_quotes s = s"
  by (induction s) (auto simp: double_quotes_def)

lemma needsQuotes_iff:
  "needsQuotes s \<longleftrightarrow> dquote \<in> set s \<or> CHR '','' \<in> set s \<or> newline \<in> set s"
  by (auto simp: needsQuotes_def list_ex_iff)

text \<open>
  C7. A string field that holds a comma, a double quote or a newline is emitted between
  double quotes, every double quote of it doubled; any other string field is emitted
  as it is.
\<close>

theorem csvSafe_string:
  "csvSafe (Some (JStr s)) =
     (if dquote \<in> set s \<or> CHR '','' \<in> set s \<or> newline \<in> set s
      then [dquote] @ concat (map (\<lambda>c. if c = dquote then [dquote, dquote] else [c]) s) @ [dquote]
      else s)"
  using double_quotes_plain [of s]
  by (simp add: csvSafe_def needsQuotes_iff Let_def) (simp add: double_quotes_def)

theorem csvSafe_string_witness:
  "csvSafe (Some (JStr ''hello, world'')) = [dquote] @ ''hello, world'' @ [dquote]
   \<and> csvSafe (Some (JStr ''plain'')) = ''plain''"
  using csvSafe_string [of "''hello, world''"] csvSafe_string [of "''plain''"]
  by (simp add: dquote_def newline_def)

subsection \<open>Helper facts\<close>

lemma get_prop_read: "x \<noteq> JNull \<Longrightarrow> k \<noteq> ''entries'' \<Longrightarrow> get_prop x k = Inr (read x k)"
  by (cases x) (simp_all add: read_def)

lemma get_prop_record: "is_record x \<Longrightarrow> get_prop x k = Inr (read x k)"
  by (cases x) (simp_all add: read_def)

lemma record_of_id: "read x ''id'' = Some v \<Longrightarrow> is_record x"
  by (cases x) (simp_all add: read_def)

lemma read_JArr [simp]: "read (JArr xs) k = None"
  by (simp add: read_def)

lemma read_JObj [simp]: "read (JObj kvs) k = map_of kvs k"
  by (simp add: read_def)

lemma strict_eq_str [simp]: "strict_eq v (Some (JStr s)) \<longleftrightarrow> v = Some (JStr s)"
  by (auto simp: strict_eq_def)

lemma filterE_differs:
  "JNull \<notin> set xs \<Longrightarrow> k \<noteq> ''entries'' \<Longrightarrow>
   filterE (differs k ident) xs = Inr [x \<leftarrow> xs. read x k \<noteq> Some (JStr ident)]"
  by (induction xs) (auto simp: differs_def get_prop_read)

lemma mapE_total: "(\<And>x. x \<in> set xs \<Longrightarrow> f x = Inr (g x)) \<Longrightarrow> mapE f xs = Inr (map g xs)"
  by (induction xs) auto

lemma collection_object:
  "collection db k = Inr xs \<Longrightarrow> \<exists>kvs. db = JObj kvs \<and> map_of kvs k = Some (JArr xs)"
  apply (cases db; simp add: collection_def split: if_splits)
  subgoal for kvs
    apply (cases "map_of kvs k"; simp)
    subgoal for a by (cases a; simp)
    done
  done

lemma collection_update_same:
  "collection (JObj (AList.update k (JArr xs) kvs)) k = Inr xs"
  by (simp add: collection_def update_conv')

lemma collection_update_other:
  "k' \<noteq> k \<Longrightarrow> collection (JObj (AList.update k v kvs)) k' = collection (JObj kvs) k'"
  by (simp add: collection_def update_conv')

lemma map_of_assign:
  "distinct (map fst new) \<Longrightarrow> map_of (assign new base) = map_of base ++ map_of new"
proof (induction new arbitrary: base)
  case Nil
  then show ?case by (simp add: assign_def)
next
  case (Cons p new)
  obtain k v where p: "p = (k, v)" by (cases p)
  from Cons.prems have k: "k \<notin> fst ` set new" and d: "distinct (map fst new)"
    by (auto simp: p)
  have "assign (p # new) base = assign new (AList.update k v base)"
    by (simp add: assign_def p)
  then have "map_of (assign (p # new) base) = map_of (AList.update k v base) ++ map_of new"
    using Cons.IH [OF d] by simp
  also have "\<dots> = (map_of base)(k \<mapsto> v) ++ map_of new"
    by (simp only: update_conv')
  also have "\<dots> = map_of base ++ map_of (p # new)"
  proof -
    from k have kn: "map_of new k = None" by (simp add: map_of_eq_None_iff)
    show ?thesis
      by (auto simp: p fun_eq_iff map_add_def kn split: option.splits)
  qed
  finally show ?case .
qed

subsection \<open>Cascading delete\<close>

text \<open>
  C1. A confirmed \<^verbatim>\<open>deleteInvestigation(id)\<close> is one update of the database. It keeps, in
  their order and as they were, exactly the investigations whose \<^verbatim>\<open>id\<close> is not \<open>id\<close>
  and exactly the evidence whose \<^verbatim>\<open>investigationId\<close> is not \<open>id\<close>, and it leaves every
  other member of the database alone.
\<close>

theorem deleteInvestigation_cascade:
  assumes "holds db ''investigations'' invs" and "holds db ''evidence'' evs"
  shows "\<exists>db'. deleteInvestigation True ident db = Inr db'
     \<and> collection db' ''investigations'' = Inr [i \<leftarrow> invs. read i ''id'' \<noteq> Some (JStr ident)]
     \<and> collection db' ''evidence'' =
         Inr [e \<leftarrow> evs. read e ''investigationId'' \<noteq> Some (JStr ident)]
     \<and> (\<forall>k. k \<noteq> ''investigations'' \<and> k \<noteq> ''evidence'' \<longrightarrow> get_prop db' k = get_prop db k)"
proof -
  from assms obtain kvs where db: "db = JObj kvs"
    using collection_object unfolding holds_def by blast
  from assms have del: "deleteInvestigation True ident db =
      Inr (JObj (AList.update ''evidence''
                  (JArr [e \<leftarrow> evs. read e ''investigationId'' \<noteq> Some (JStr ident)])
            (AList.update ''investigations''
                  (JArr [i \<leftarrow> invs. read i ''id'' \<noteq> Some (JStr ident)]) kvs)))"
    by (simp add: deleteInvestigation_def holds_def filterE_differs db)
  show ?thesis
    unfolding del
    by (simp add: collection_update_same collection_update_other db update_conv')
qed

text \<open>Investigations A and B, evidence E1 of A and E2 of B: deleting A leaves B and E2.\<close>

theorem deleteInvestigation_cascade_witness:
  "holds (JObj [(''investigations'', JArr [JObj [(''id'', JStr ''A'')], JObj [(''id'', JStr ''B'')]]),
                (''evidence'', JArr [JObj [(''id'', JStr ''E1''), (''investigationId'', JStr ''A'')],
                                     JObj [(''id'', JStr ''E2''), (''investigationId'', JStr ''B'')]]),
                (''version'', JNum 1)])
         ''investigations'' [JObj [(''id'', JStr ''A'')], JObj [(''id'', JStr ''B'')]]
   \<and> (\<exists>db'. deleteInvestigation True ''A''
          (JObj [(''investigations'', JArr [JObj [(''id'', JStr ''A'')], JObj [(''id'', JStr ''B'')]]),
                 (''evidence'', JArr [JObj [(''id'', JStr ''E1''), (''investigationId'', JStr ''A'')],
                                      JObj [(''id'', JStr ''E2''), (''investigationId'', JStr ''B'')]]),
                 (''version'', JNum 1)]) = Inr db'
        \<and> collection db' ''investigations'' = Inr [JObj [(''id'', JStr ''B'')]]
        \<and> collection db' ''evidence'' =
            Inr [JObj [(''id'', JStr ''E2''), (''investigationId'', JStr ''B'')]]
        \<and> get_prop db' ''version'' = Inr (Some (JNum 1)))"
proof -
  let ?A = "JObj [(''id'', JStr ''A'')]" and ?B = "JObj [(''id'', JStr ''B'')]"
  let ?E1 = "JObj [(''id'', JStr ''E1''), (''investigationId'', JStr ''A'')]"
  let ?E2 = "JObj [(''id'', JStr ''E2''), (''investigationId'', JStr ''B'')]"
  let ?db = "JObj [(''investigations'', JArr [?A, ?B]), (''evidence'', JArr [?E1, ?E2]),
                   (''version'', JNum 1)]"
  have i: "holds ?db ''investigations'' [?A, ?B]"
    by (simp add: holds_def collection_def)
  have e: "holds ?db ''evidence'' [?E1, ?E2]"
    by (simp add: holds_def collection_def)
  from deleteInvestigation_cascade [OF i e, of "''A''"]
  obtain db' where d: "deleteInvestigation True ''A'' ?db = Inr db'"
    and ci: "collection db' ''investigations'' = Inr [i \<leftarrow> [?A, ?B]. read i ''id'' \<noteq> Some (JStr ''A'')]"
    and ce: "collection db' ''evidence'' = Inr [e \<leftarrow> [?E1, ?E2]. read e ''investigationId'' \<noteq> Some (JStr ''A'')]"
    and rest: "\<forall>k. k \<noteq> ''investigations'' \<and> k \<noteq> ''evidence'' \<longrightarrow> get_prop db' k = get_prop ?db k"
    by blast
  from rest have v: "get_prop db' ''version'' = Inr (Some (JNum 1))"
    by simp
  from ci have ci': "collection db' ''investigations'' = Inr [?B]" by simp
  from ce have ce': "collection db' ''evidence'' = Inr [?E2]" by simp
  from i d ci' ce' v show ?thesis by blast
qed

subsection \<open>Partial update\<close>

lemma touch_total:
  "i \<noteq> JNull \<Longrightarrow>
   touch ident now data i =
     Inr (if read i ''id'' = Some (JStr ident)
          then JObj (AList.update ''updatedAt'' (JNum now) (assign (own_props data) (own_props i)))
          else i)"
  by (simp add: touch_def get_prop_read)

lemma read_Some_object: "read i k = Some v \<Longrightarrow> \<exists>kvs. i = JObj kvs"
  by (cases i) (simp_all add: read_def split: if_splits)

lemma merged_touch:
  assumes "distinct (map fst fields)" and "read i ''id'' = Some (JStr ident)"
  shows "merged now fields i
           (JObj (AList.update ''updatedAt'' (JNum now) (assign fields (own_props i))))"
proof -
  from assms(2) obtain kvs where i: "i = JObj kvs" using read_Some_object by blast
  show ?thesis
    unfolding merged_def i
    by (simp add: update_conv' map_of_assign [OF assms(1)] map_add_def split: option.splits)
qed

lemma update_collection:
  assumes "holds db coll xs"
  shows "\<exists>kvs. db = JObj kvs \<and> map_of kvs coll = Some (JArr xs) \<and>
     mapE (touch ident now data) xs =
       Inr (map (\<lambda>i. if read i ''id'' = Some (JStr ident)
          then JObj (AList.update ''updatedAt'' (JNum now) (assign (own_props data) (own_props i)))
          else i) xs)"
proof -
  from assms obtain kvs where "db = JObj kvs \<and> map_of kvs coll = Some (JArr xs)"
    using collection_object unfolding holds_def by blast
  moreover from assms have "\<And>x. x \<in> set xs \<Longrightarrow> x \<noteq> JNull"
    by (auto simp: holds_def)
  then have "mapE (touch ident now data) xs =
       Inr (map (\<lambda>i. if read i ''id'' = Some (JStr ident)
          then JObj (AList.update ''updatedAt'' (JNum now) (assign (own_props data) (own_props i)))
          else i) xs)"
    by (intro mapE_total touch_total) 
  ultimately show ?thesis by blast
qed

lemma touched_list:
  assumes "distinct (map fst fields)"
  shows "list_all2 (\<lambda>i i'. if read i ''id'' = Some (JStr ident) then merged now fields i i' else i' = i)
     xs (map (\<lambda>i. if read i ''id'' = Some (JStr ident)
          then JObj (AList.update ''updatedAt'' (JNum now) (assign (own_props (JObj fields)) (own_props i)))
          else i) xs)"
  by (simp add: list_all2_map2 list_all2_same merged_touch [OF assms])

lemma untouched_list:
  "\<forall>i\<in>set xs. read i ''id'' \<noteq> Some (JStr ident) \<Longrightarrow>
   map (\<lambda>i. if read i ''id'' = Some (JStr ident) then f i else i) xs = xs"
  by (induction xs) auto

text \<open>
  C3 (amended). \<^verbatim>\<open>updateInvestigation(id, fields)\<close> rewrites, in place, every investigation
  whose \<^verbatim>\<open>id\<close> is \<open>id\<close>: its \<^verbatim>\<open>updatedAt\<close> becomes the current time, every other
  property that \<open>fields\<close> carries takes the value from \<open>fields\<close>, and every property that
  \<open>fields\<close> does not carry keeps its value; so \<^verbatim>\<open>id\<close> and \<^verbatim>\<open>createdAt\<close> stay as they
  were whenever \<open>fields\<close> has no \<^verbatim>\<open>id\<close> or \<^verbatim>\<open>createdAt\<close> of its own. Every other
  investigation and every other member of the database is unchanged, and the database is
  unchanged when no investigation has that id. \<^verbatim>\<open>updateEvidence\<close> does the same on the
  evidence.
\<close>

theorem update_merges:
  assumes "holds db ''investigations'' invs" and "holds db ''evidence'' evs"
    and "distinct (map fst fields)"
  shows "(\<exists>db' invs'. updateInvestigation ident now (JObj fields) db = Inr db'
           \<and> collection db' ''investigations'' = Inr invs'
           \<and> list_all2 (\<lambda>i i'. if read i ''id'' = Some (JStr ident)
                                then merged now fields i i' else i' = i) invs invs'
           \<and> (\<forall>k. k \<noteq> ''investigations'' \<longrightarrow> get_prop db' k = get_prop db k)
           \<and> ((\<forall>i\<in>set invs. read i ''id'' \<noteq> Some (JStr ident)) \<longrightarrow> db' = db))
       \<and> (\<exists>db' evs'. updateEvidence ident now (JObj fields) db = Inr db'
           \<and> collection db' ''evidence'' = Inr evs'
           \<and> list_all2 (\<lambda>e e'. if read e ''id'' = Some (JStr ident)
                                then merged now fields e e' else e' = e) evs evs'
           \<and> (\<forall>k. k \<noteq> ''evidence'' \<longrightarrow> get_prop db' k = get_prop db k)
           \<and> ((\<forall>e\<in>set evs. read e ''id'' \<noteq> Some (JStr ident)) \<longrightarrow> db' = db))"
proof (intro conjI)
  from update_collection [OF assms(1), of ident now "JObj fields"]
  obtain kvs where db: "db = JObj kvs" and m: "map_of kvs ''investigations'' = Some (JArr invs)"
    and mp: "mapE (touch ident now (JObj fields)) invs =
       Inr (map (\<lambda>i. if read i ''id'' = Some (JStr ident)
          then JObj (AList.update ''updatedAt'' (JNum now) (assign (own_props (JObj fields)) (own_props i)))
          else i) invs)" (is "_ = Inr ?invs'")
    by blast
  have u: "updateInvestigation ident now (JObj fields) db =
      Inr (JObj (AList.update ''investigations'' (JArr ?invs') kvs))"
    using assms(1) mp by (simp add: updateInvestigation_def holds_def db)
  have same: "(\<forall>i\<in>set invs. read i ''id'' \<noteq> Some (JStr ident)) \<longrightarrow>
      JObj (AList.update ''investigations'' (JArr ?invs') kvs) = db"
    using m by (auto simp: untouched_list db update_triv)
  show "\<exists>db' invs'. updateInvestigation ident now (JObj fields) db = Inr db'
           \<and> collection db' ''investigations'' = Inr invs'
           \<and> list_all2 (\<lambda>i i'. if read i ''id'' = Some (JStr ident)
                                then merged now fields i i' else i' = i) invs invs'
           \<and> (\<forall>k. k \<noteq> ''investigations'' \<longrightarrow> get_prop db' k = get_prop db k)
           \<and> ((\<forall>i\<in>set invs. read i ''id'' \<noteq> Some (JStr ident)) \<longrightarrow> db' = db)"
    unfolding u using touched_list [OF assms(3), of ident now invs] same
    by (simp add: collection_update_same update_conv' db)
next
  from update_collection [OF assms(2), of ident now "JObj fields"]
  obtain kvs where db: "db = JObj kvs" and m: "map_of kvs ''evidence'' = Some (JArr evs)"
    and mp: "mapE (touch ident now (JObj fields)) evs =
       Inr (map (\<lambda>i. if read i ''id'' = Some (JStr ident)
          then JObj (AList.update ''updatedAt'' (JNum now) (assign (own_props (JObj fields)) (own_props i)))
          else i) evs)" (is "_ = Inr ?evs'")
    by blast
  have u: "updateEvidence ident now (JObj fields) db =
      Inr (JObj (AList.update ''evidence'' (JArr ?evs') kvs))"
    using assms(2) mp by (simp add: updateEvidence_def holds_def db)
  have same: "(\<forall>i\<in>set evs. read i ''id'' \<noteq> Some (JStr ident)) \<longrightarrow>
      JObj (AList.update ''evidence'' (JArr ?evs') kvs) = db"
    using m by (auto simp: untouched_list db update_triv)
  show "\<exists>db' evs'. updateEvidence ident now (JObj fields) db = Inr db'
           \<and> collection db' ''evidence'' = Inr evs'
           \<and> list_all2 (\<lambda>e e'. if read e ''id'' = Some (JStr ident)
                                then merged now fields e e' else e' = e) evs evs'
           \<and> (\<forall>k. k \<noteq> ''evidence'' \<longrightarrow> get_prop db' k = get_prop db k)
           \<and> ((\<forall>e\<in>set evs. read e ''id'' \<noteq> Some (JStr ident)) \<longrightarrow> db' = db)"
    unfolding u using touched_list [OF assms(3), of ident now evs] same
    by (simp add: collection_update_same update_conv' db)
qed

theorem update_merges_witness:
  "holds (JObj [(''investigations'',
                 JArr [JObj [(''id'', JStr ''A''), (''createdAt'', JNum 5), (''updatedAt'', JNum 5),
                             (''title'', JStr ''Heist''), (''status'', JStr ''Open'')]]),
                (''evidence'', JArr []), (''version'', JNum 1)])
         ''investigations''
         [JObj [(''id'', JStr ''A''), (''createdAt'', JNum 5), (''updatedAt'', JNum 5),
                (''title'', JStr ''Heist''), (''status'', JStr ''Open'')]]
   \<and> (\<exists>db' i'. updateInvestigation ''A'' 9 (JObj [(''status'', JStr ''Closed'')])
          (JObj [(''investigations'',
                  JArr [JObj [(''id'', JStr ''A''), (''createdAt'', JNum 5), (''updatedAt'', JNum 5),
                              (''title'', JStr ''Heist''), (''status'', JStr ''Open'')]]),
                 (''evidence'', JArr []), (''version'', JNum 1)]) = Inr db'
        \<and> collection db' ''investigations'' = Inr [i']
        \<and> read i' ''status'' = Some (JStr ''Closed'') \<and> read i' ''updatedAt'' = Some (JNum 9)
        \<and> read i' ''id'' = Some (JStr ''A'') \<and> read i' ''createdAt'' = Some (JNum 5)
        \<and> read i' ''title'' = Some (JStr ''Heist''))"
proof -
  let ?A = "JObj [(''id'', JStr ''A''), (''createdAt'', JNum 5), (''updatedAt'', JNum 5),
                  (''title'', JStr ''Heist''), (''status'', JStr ''Open'')]"
  let ?db = "JObj [(''investigations'', JArr [?A]), (''evidence'', JArr []), (''version'', JNum 1)]"
  have i: "holds ?db ''investigations'' [?A]"
    by (simp add: holds_def collection_def)
  have e: "holds ?db ''evidence'' []"
    by (simp add: holds_def collection_def)
  have d: "distinct (map fst [(''status'', JStr ''Closed'')])"
    by simp
  from update_merges [OF i e d, of "''A''" 9]
  obtain db' invs' where u: "updateInvestigation ''A'' 9 (JObj [(''status'', JStr ''Closed'')]) ?db = Inr db'"
    and c: "collection db' ''investigations'' = Inr invs'"
    and l: "list_all2 (\<lambda>i i'. if read i ''id'' = Some (JStr ''A'')
              then merged 9 [(''status'', JStr ''Closed'')] i i' else i' = i) [?A] invs'"
    by blast
  from l obtain i' where invs': "invs' = [i']"
    and m: "merged 9 [(''status'', JStr ''Closed'')] ?A i'"
    by (auto simp: list_all2_Cons1)
  from m have "read i' ''status'' = Some (JStr ''Closed'')" "read i' ''updatedAt'' = Some (JNum 9)"
    "read i' ''id'' = Some (JStr ''A'')" "read i' ''createdAt'' = Some (JNum 5)"
    "read i' ''title'' = Some (JStr ''Heist'')"
    by (simp_all add: merged_def)
  with i u c invs' show ?thesis by blast
qed

text \<open>An update whose fields carry \<^verbatim>\<open>id\<close> and \<^verbatim>\<open>createdAt\<close> overwrites both.\<close>

theorem update_overwrites_id_counterexample:
  "updateInvestigation ''A'' 9 (JObj [(''id'', JStr ''B''), (''createdAt'', JNum 0)])
     (JObj [(''investigations'',
             JArr [JObj [(''id'', JStr ''A''), (''createdAt'', JNum 5), (''updatedAt'', JNum 5)]]),
            (''evidence'', JArr [])])
   = Inr (JObj [(''investigations'',
             JArr [JObj [(''id'', JStr ''B''), (''createdAt'', JNum 0), (''updatedAt'', JNum 9)]]),
            (''evidence'', JArr [])])"
  by (simp add: updateInvestigation_def collection_def touch_def assign_def)

subsection \<open>Appending an entry\<close>

lemma iterate_entries:
  "threaded e \<Longrightarrow> iterate (Some (or_else (read e ''entries'') (JArr []))) = Inr (entries_of e)"
  unfolding threaded_def entries_of_def or_else_def
  by (cases "read e ''entries''") (auto split: json.splits)

lemma log_entry_total:
  assumes "e \<noteq> JNull" and "threaded e"
  shows "log_entry eid now entry e =
     Inr (if read e ''id'' = Some (JStr eid)
          then JObj (AList.update ''updatedAt'' (JNum now)
                 (AList.update ''entries'' (JArr (entry # entries_of e)) (own_props e)))
          else e)"
proof (cases "read e ''id'' = Some (JStr eid)")
  case True
  then have "is_record e" by (rule record_of_id)
  then have "get_prop e ''entries'' = Inr (read e ''entries'')" by (rule get_prop_record)
  with True assms show ?thesis by (simp add: log_entry_def get_prop_read iterate_entries)
next
  case False
  with assms show ?thesis by (simp add: log_entry_def get_prop_read)
qed

lemma logged_log_entry:
  assumes "read e ''id'' = Some (JStr eid)"
  shows "logged now entry e (JObj (AList.update ''updatedAt'' (JNum now)
                 (AList.update ''entries'' (JArr (entry # entries_of e)) (own_props e))))"
proof -
  from assms obtain kvs where e: "e = JObj kvs" using read_Some_object by blast
  show ?thesis unfolding logged_def e by (simp add: update_conv')
qed

lemma logged_entries:
  "logged now entry e e' \<Longrightarrow> read e' ''entries'' = Some (JArr (entry # entries_of e))"
  unfolding logged_def by (elim conjE)

lemma logged_threaded: "logged now entry e e' \<Longrightarrow> threaded e'"
  using logged_entries [of now entry e e'] by (simp add: threaded_def)

lemma logged_not_null: "logged now entry e e' \<Longrightarrow> e' \<noteq> JNull"
  using logged_entries [of now entry e e'] by (auto simp: read_def)

lemma new_entry_props:
  assumes "distinct (map fst fields)"
  shows "read (new_entry uid now (JObj fields)) k =
     (case map_of fields k of Some v \<Rightarrow> Some v
      | None \<Rightarrow> if k = ''id'' then Some (JStr uid)
                else if k = ''timestamp'' then Some (JNum now) else None)"
  by (simp add: new_entry_def map_of_assign [OF assms] map_add_def split: option.splits)

lemma addEntry_step:
  assumes "holds db ''evidence'' evs" and "\<forall>e\<in>set evs. threaded e"
  shows "\<exists>db' evs'. addEntry eid uid now data db = Inr db'
           \<and> holds db' ''evidence'' evs' \<and> (\<forall>e\<in>set evs'. threaded e)
           \<and> list_all2 (\<lambda>e e'. if read e ''id'' = Some (JStr eid)
                                then logged now (new_entry uid now data) e e' else e' = e) evs evs'
           \<and> (\<forall>k. k \<noteq> ''evidence'' \<longrightarrow> get_prop db' k = get_prop db k)
           \<and> ((\<forall>e\<in>set evs. read e ''id'' \<noteq> Some (JStr eid)) \<longrightarrow> db' = db)"
proof -
  let ?entry = "new_entry uid now data"
  let ?g = "\<lambda>e. if read e ''id'' = Some (JStr eid)
          then JObj (AList.update ''updatedAt'' (JNum now)
                 (AList.update ''entries'' (JArr (?entry # entries_of e)) (own_props e)))
          else e"
  from assms obtain kvs where db: "db = JObj kvs" and m: "map_of kvs ''evidence'' = Some (JArr evs)"
    using collection_object unfolding holds_def by blast
  from assms have nn: "\<And>e. e \<in> set evs \<Longrightarrow> e \<noteq> JNull" by (auto simp: holds_def)
  have mp: "mapE (log_entry eid now ?entry) evs = Inr (map ?g evs)"
    using assms(2) nn by (intro mapE_total log_entry_total) auto
  have u: "addEntry eid uid now data db = Inr (JObj (AList.update ''evidence'' (JArr (map ?g evs)) kvs))"
    using assms(1) mp by (simp add: addEntry_def holds_def db)
  have l: "list_all2 (\<lambda>e e'. if read e ''id'' = Some (JStr eid)
                                then logged now ?entry e e' else e' = e) evs (map ?g evs)"
    by (simp add: list_all2_map2 list_all2_same logged_log_entry)
  have t: "\<forall>e\<in>set (map ?g evs). threaded e \<and> e \<noteq> JNull"
    using assms(2) nn logged_log_entry [THEN logged_threaded]
    by (auto simp del: read_JObj)
  have same: "(\<forall>i\<in>set evs. read i ''id'' \<noteq> Some (JStr eid)) \<longrightarrow>
      JObj (AList.update ''evidence'' (JArr (map ?g evs)) kvs) = db"
    using m by (auto simp: untouched_list db update_triv)
  have h: "holds (JObj (AList.update ''evidence'' (JArr (map ?g evs)) kvs)) ''evidence'' (map ?g evs)"
    unfolding holds_def using t by (simp only: collection_update_same) blast
  have r: "\<forall>k. k \<noteq> ''evidence'' \<longrightarrow>
      get_prop (JObj (AList.update ''evidence'' (JArr (map ?g evs)) kvs)) k = get_prop db k"
    by (simp add: update_conv' db)
  from t have t': "\<forall>e\<in>set (map ?g evs). threaded e" by blast
  show ?thesis
    apply (rule exI [where x = "JObj (AList.update ''evidence'' (JArr (map ?g evs)) kvs)"])
    apply (rule exI [where x = "map ?g evs"])
    using u h t' l r same apply (intro conjI)
         apply assumption+
    done
qed

lemma logged_keeps:
  "logged now entry e e' \<Longrightarrow> k \<noteq> ''entries'' \<Longrightarrow> k \<noteq> ''updatedAt'' \<Longrightarrow> read e' k = read e k"
  unfolding logged_def by blast

lemma logged_twice:
  assumes "if read e ''id'' = Some (JStr eid) then logged now x e e' else e' = e"
    and "if read e' ''id'' = Some (JStr eid) then logged now2 y e' e'' else e'' = e'"
  shows "read e ''id'' = Some (JStr eid) \<longrightarrow>
           read e'' ''entries'' = Some (JArr (y # x # entries_of e))"
proof
  assume i: "read e ''id'' = Some (JStr eid)"
  with assms(1) have l: "logged now x e e'" by simp
  have "read e' ''id'' = read e ''id''"
    by (rule logged_keeps [OF l]) simp_all
  with i assms(2) have l2: "logged now2 y e' e''" by simp
  have "entries_of e' = x # entries_of e"
    using logged_entries [OF l] by (simp add: entries_of_def)
  with logged_entries [OF l2] show "read e'' ''entries'' = Some (JArr (y # x # entries_of e))"
    by simp
qed

text \<open>
  C4 (amended). \<^verbatim>\<open>addEntry(evidenceId, fields)\<close> builds the entry
  \<^verbatim>\<open>{ id, timestamp: now, ...fields }\<close>: its \<^verbatim>\<open>id\<close> is the generated identifier and its
  \<^verbatim>\<open>timestamp\<close> the current time unless \<open>fields\<close> carries a property of that name, which
  then wins. Every evidence with that id gets the entry in front of its entries and the
  current time as \<^verbatim>\<open>updatedAt\<close>, and keeps its other properties; the other evidence and
  the rest of the database are unchanged, and so is the database when no evidence has that
  id. After a second \<^verbatim>\<open>addEntry\<close> on the same evidence the entries begin with the second
  entry, then the first.
\<close>

theorem addEntry_prepends:
  assumes "holds db ''evidence'' evs" and "\<forall>e\<in>set evs. threaded e"
    and "distinct (map fst fields)"
  shows "\<exists>db' evs'. addEntry eid uid now (JObj fields) db = Inr db'
     \<and> collection db' ''evidence'' = Inr evs'
     \<and> list_all2 (\<lambda>e e'. if read e ''id'' = Some (JStr eid)
                          then logged now (new_entry uid now (JObj fields)) e e' else e' = e)
          evs evs'
     \<and> (\<forall>k. read (new_entry uid now (JObj fields)) k =
            (case map_of fields k of Some v \<Rightarrow> Some v
             | None \<Rightarrow> if k = ''id'' then Some (JStr uid)
                       else if k = ''timestamp'' then Some (JNum now) else None))
     \<and> (\<forall>k. k \<noteq> ''evidence'' \<longrightarrow> get_prop db' k = get_prop db k)
     \<and> ((\<forall>e\<in>set evs. read e ''id'' \<noteq> Some (JStr eid)) \<longrightarrow> db' = db)
     \<and> (\<forall>uid2 now2 data2. \<exists>db'' evs''. addEntry eid uid2 now2 data2 db' = Inr db''
           \<and> collection db'' ''evidence'' = Inr evs''
           \<and> list_all2 (\<lambda>e e''. read e ''id'' = Some (JStr eid) \<longrightarrow>
                 read e'' ''entries'' =
                   Some (JArr (new_entry uid2 now2 data2 # new_entry uid now (JObj fields)
                               # entries_of e))) evs evs'')"
proof -
  from addEntry_step [OF assms(1,2), of eid uid now "JObj fields"]
  obtain db' evs' where a: "addEntry eid uid now (JObj fields) db = Inr db'"
    and h: "holds db' ''evidence'' evs'" and t: "\<forall>e\<in>set evs'. threaded e"
    and l: "list_all2 (\<lambda>e e'. if read e ''id'' = Some (JStr eid)
              then logged now (new_entry uid now (JObj fields)) e e' else e' = e) evs evs'"
    and r: "\<forall>k. k \<noteq> ''evidence'' \<longrightarrow> get_prop db' k = get_prop db k"
    and s: "(\<forall>e\<in>set evs. read e ''id'' \<noteq> Some (JStr eid)) \<longrightarrow> db' = db"
    by blast
  from h have c: "collection db' ''evidence'' = Inr evs'" by (simp add: holds_def)
  have p: "\<forall>k. read (new_entry uid now (JObj fields)) k =
            (case map_of fields k of Some v \<Rightarrow> Some v
             | None \<Rightarrow> if k = ''id'' then Some (JStr uid)
                       else if k = ''timestamp'' then Some (JNum now) else None)"
    using new_entry_props [OF assms(3)] by blast
  have two: "\<forall>uid2 now2 data2. \<exists>db'' evs''. addEntry eid uid2 now2 data2 db' = Inr db''
           \<and> collection db'' ''evidence'' = Inr evs''
           \<and> list_all2 (\<lambda>e e''. read e ''id'' = Some (JStr eid) \<longrightarrow>
                 read e'' ''entries'' =
                   Some (JArr (new_entry uid2 now2 data2 # new_entry uid now (JObj fields)
                               # entries_of e))) evs evs''"
  proof (intro allI)
    fix uid2 now2 data2
    from addEntry_step [OF h t, of eid uid2 now2 data2]
    obtain db'' evs'' where a2: "addEntry eid uid2 now2 data2 db' = Inr db''"
      and h2: "holds db'' ''evidence'' evs''"
      and l2: "list_all2 (\<lambda>e e'. if read e ''id'' = Some (JStr eid)
              then logged now2 (new_entry uid2 now2 data2) e e' else e' = e) evs' evs''"
      by blast
    from h2 have c2: "collection db'' ''evidence'' = Inr evs''" by (simp add: holds_def)
    have "list_all2 (\<lambda>e e''. read e ''id'' = Some (JStr eid) \<longrightarrow>
                 read e'' ''entries'' =
                   Some (JArr (new_entry uid2 now2 data2 # new_entry uid now (JObj fields)
                               # entries_of e))) evs evs''"
      by (rule list_all2_trans [OF _ l l2]) (rule logged_twice)
    with a2 c2 show "\<exists>db'' evs''. addEntry eid uid2 now2 data2 db' = Inr db''
           \<and> collection db'' ''evidence'' = Inr evs''
           \<and> list_all2 (\<lambda>e e''. read e ''id'' = Some (JStr eid) \<longrightarrow>
                 read e'' ''entries'' =
                   Some (JArr (new_entry uid2 now2 data2 # new_entry uid now (JObj fields)
                               # entries_of e))) evs evs''"
      by blast
  qed
  show ?thesis
    apply (rule exI [where x = db'])
    apply (rule exI [where x = evs'])
    using a c l p r s two apply (intro conjI)
          apply assumption+
    done
qed

theorem addEntry_prepends_witness:
  "holds (JObj [(''investigations'', JArr []),
                (''evidence'', JArr [JObj [(''id'', JStr ''E1''), (''updatedAt'', JNum 3),
                                           (''entries'', JArr [JStr ''old''])]])])
      ''evidence'' [JObj [(''id'', JStr ''E1''), (''updatedAt'', JNum 3),
                          (''entries'', JArr [JStr ''old''])]]
   \<and> threaded (JObj [(''id'', JStr ''E1''), (''updatedAt'', JNum 3),
                     (''entries'', JArr [JStr ''old''])])
   \<and> (\<exists>db' e'. addEntry ''E1'' ''x1'' 7 (JObj [(''body'', JStr ''found'')])
          (JObj [(''investigations'', JArr []),
                 (''evidence'', JArr [JObj [(''id'', JStr ''E1''), (''updatedAt'', JNum 3),
                                            (''entries'', JArr [JStr ''old''])]])]) = Inr db'
        \<and> collection db' ''evidence'' = Inr [e']
        \<and> read e' ''entries'' =
            Some (JArr [JObj [(''id'', JStr ''x1''), (''timestamp'', JNum 7),
                              (''body'', JStr ''found'')], JStr ''old''])
        \<and> read e' ''updatedAt'' = Some (JNum 7) \<and> read e' ''id'' = Some (JStr ''E1''))"
proof -
  let ?E = "JObj [(''id'', JStr ''E1''), (''updatedAt'', JNum 3), (''entries'', JArr [JStr ''old''])]"
  let ?db = "JObj [(''investigations'', JArr []), (''evidence'', JArr [?E])]"
  let ?F = "[(''body'', JStr ''found'')]"
  have h: "holds ?db ''evidence'' [?E]"
    by (simp add: holds_def collection_def)
  have t: "threaded ?E"
    by (simp add: threaded_def)
  then have t': "\<forall>e\<in>set [?E]. threaded e" by simp
  have d: "distinct (map fst ?F)" by simp
  from addEntry_prepends [OF h t' d, of "''E1''" "''x1''" 7]
  obtain db' evs' where a: "addEntry ''E1'' ''x1'' 7 (JObj ?F) ?db = Inr db'"
    and c: "collection db' ''evidence'' = Inr evs'"
    and l: "list_all2 (\<lambda>e e'. if read e ''id'' = Some (JStr ''E1'')
              then logged 7 (new_entry ''x1'' 7 (JObj ?F)) e e' else e' = e) [?E] evs'"
    by blast
  from l obtain e' where evs': "evs' = [e']"
    and g: "logged 7 (new_entry ''x1'' 7 (JObj ?F)) ?E e'"
    by (auto simp: list_all2_Cons1)
  have n: "new_entry ''x1'' 7 (JObj ?F) =
      JObj [(''id'', JStr ''x1''), (''timestamp'', JNum 7), (''body'', JStr ''found'')]"
    by (simp add: new_entry_def assign_def)
  have "entries_of ?E = [JStr ''old'']" by (simp add: entries_of_def)
  with logged_entries [OF g] n
  have r1: "read e' ''entries'' =
      Some (JArr [JObj [(''id'', JStr ''x1''), (''timestamp'', JNum 7), (''body'', JStr ''found'')],
                  JStr ''old''])"
    by simp
  from g have r2: "read e' ''updatedAt'' = Some (JNum 7)"
    unfolding logged_def by (elim conjE)
  have r3: "read e' ''id'' = Some (JStr ''E1'')"
    using logged_keeps [OF g, of "''id''"] by simp
  from h t a c evs' r1 r2 r3 show ?thesis by blast
qed

text \<open>Fields that carry \<^verbatim>\<open>id\<close> and \<^verbatim>\<open>timestamp\<close>: the new entry takes the id of an entry
  that is already there, and a timestamp that is not the current time.\<close>

theorem addEntry_fields_win_counterexample:
  "addEntry ''E1'' ''x2'' 9 (JObj [(''id'', JStr ''x1''), (''timestamp'', JNum 0)])
     (JObj [(''investigations'', JArr []),
            (''evidence'',
             JArr [JObj [(''id'', JStr ''E1''), (''updatedAt'', JNum 3),
                         (''entries'', JArr [JObj [(''id'', JStr ''x1''), (''timestamp'', JNum 3)]])]])])
   = Inr (JObj [(''investigations'', JArr []),
            (''evidence'',
             JArr [JObj [(''id'', JStr ''E1''), (''updatedAt'', JNum 9),
                         (''entries'', JArr [JObj [(''id'', JStr ''x1''), (''timestamp'', JNum 0)],
                                             JObj [(''id'', JStr ''x1''), (''timestamp'', JNum 3)]])]])])"
  by (simp add: addEntry_def collection_def log_entry_def new_entry_def assign_def or_else_def)

subsection \<open>The filtered list of investigations\<close>



lemma includes_str_Nil [simp]: "includes_str s [] = True"
  by (cases s) simp_all

lemma includes_str_empty: "q \<noteq> [] \<Longrightarrow> \<not> includes_str [] q"
  by simp











lemma includes_str_iff: "includes_str s q \<longleftrightarrow> (\<exists>p r. s = p @ q @ r)"
proof (induction s)
  case Nil
  then show ?case by simp
next
  case (Cons c cs)
  have pre: "take (length q) (c # cs) = q \<longleftrightarrow> (\<exists>r. c # cs = q @ r)"
    by (metis append_eq_conv_conj append_take_drop_id)
  have "(\<exists>p r. c # cs = p @ q @ r) \<longleftrightarrow> (\<exists>r. c # cs = q @ r) \<or> (\<exists>p r. cs = p @ q @ r)"
  proof
    assume "\<exists>p r. c # cs = p @ q @ r"
    then obtain p r where e: "c # cs = p @ q @ r" by blast
    show "(\<exists>r. c # cs = q @ r) \<or> (\<exists>p r. cs = p @ q @ r)"
    proof (cases p)
      case Nil
      with e show ?thesis by auto
    next
      case (Cons a p')
      with e have "cs = p' @ q @ r" by simp
      then show ?thesis by blast
    qed
  next
    assume "(\<exists>r. c # cs = q @ r) \<or> (\<exists>p r. cs = p @ q @ r)"
    then show "\<exists>p r. c # cs = p @ q @ r"
    proof
      assume "\<exists>r. c # cs = q @ r"
      then obtain r where "c # cs = [] @ q @ r" by auto
      then show ?thesis by blast
    next
      assume "\<exists>p r. cs = p @ q @ r"
      then obtain p r where "c # cs = (c # p) @ q @ r" by auto
      then show ?thesis by blast
    qed
  qed
  with Cons pre show ?case by simp
qed



text \<open>The letter case that the search ignores is that of \<^verbatim>\<open>toLowerCase\<close>, accented capitals
  included: the query of the one character 201 (E acute, capital) finds the title \<open>caf\<close>
  followed by the character 233 (e acute, small), and not the title \<open>cafe\<close>. The multiplication sign and the sharp s have no other
  case.\<close>

lemma toLowerCase_latin1:
  "toLowerCase [CHR ''A'', CHR ''z'', CHR 0xC0, CHR 0xC9, CHR 0xD7, CHR 0xDE, CHR 0xDF, CHR 0xF7]
   = [CHR ''a'', CHR ''z'', CHR 0xE0, CHR 0xE9, CHR 0xD7, CHR 0xFE, CHR 0xDF, CHR 0xF7]"
  by code_simp

lemma filteredInvestigations_latin1:
  "filteredInvestigations [CHR 0xC9] ''All''
     (JObj [(''investigations'',
         JArr [JObj [(''id'', JStr ''a''), (''title'', JStr (''caf'' @ [CHR 0xE9])),
                     (''createdAt'', JNum 5), (''updatedAt'', JNum 7)],
               JObj [(''id'', JStr ''b''), (''title'', JStr ''cafe''),
                     (''createdAt'', JNum 5), (''updatedAt'', JNum 8)]]),
            (''evidence'', JArr [])])
   = Inr [JObj [(''id'', JStr ''a''), (''title'', JStr (''caf'' @ [CHR 0xE9])),
                (''createdAt'', JNum 5), (''updatedAt'', JNum 7)]]"
  by code_simp

subsection \<open>The CSV export\<close>

lemma thenE_Inr [simp]: "thenE (Inr x) f = f x"
  by (simp add: thenE_def)

lemma findE_total:
  "(\<And>x. x \<in> set xs \<Longrightarrow> p x = Inr (P x)) \<Longrightarrow> findE p xs = Inr (find P xs)"
  by (induction xs) auto

lemma or_else_text:
  "is_text x \<Longrightarrow> or_else x (JStr []) = JStr (case x of Some (JStr s) \<Rightarrow> s | r \<Rightarrow> [])"
  by (cases x rule: is_text.cases) (simp_all add: or_else_def)

lemma strings_join:
  "list_all (\<lambda>t. is_text (Some t)) ts \<Longrightarrow>
   map (\<lambda>x. if x = JNull then [] else to_string x) ts = concat (map (\<lambda>t. str_of (Some t)) ts)"
proof (induction ts)
  case Nil
  then show ?case by simp
next
  case (Cons t ts)
  then show ?case by (cases t) simp_all
qed

lemma join_tags:
  "tagged x \<Longrightarrow>
   join sep (or_else (read x ''tags'') (JArr [])) = Inr (intercalate sep (tag_texts (Some x)))"
  unfolding tagged_def tag_texts_def tags_of_def join_def or_else_def
  by (cases "read x ''tags''") (auto split: json.splits simp: strings_join)

lemma find_investigation_total:
  assumes "holds db ''investigations'' invs" and "ev \<noteq> JNull"
  shows "find_investigation db ev = Inr (parent_of invs ev)"
proof -
  from assms(1) have c: "collection db ''investigations'' = Inr invs"
    and nn: "\<And>i. i \<in> set invs \<Longrightarrow> i \<noteq> JNull"
    by (auto simp: holds_def)
  have "findE (\<lambda>i. thenE (get_prop i ''id'') (\<lambda>a.
                thenE (get_prop ev ''investigationId'') (\<lambda>b. Inr (strict_eq a b)))) invs
      = Inr (find (\<lambda>i. strict_eq (read i ''id'') (read ev ''investigationId'')) invs)"
    using nn assms(2) by (intro findE_total) (simp add: get_prop_read)
  then show ?thesis
    by (simp add: find_investigation_def c parent_of_def)
qed

lemma parent_of_member: "parent_of invs ev = Some i \<Longrightarrow> i \<in> set invs"
  by (auto simp: parent_of_def find_Some_iff)

lemma attachment_text_total:
  "wf_link a \<Longrightarrow> attachment_text a = Inr (pair_text a)"
  unfolding wf_link_def attachment_text_def pair_text_def text_at_def
  by (cases "read a ''label''" rule: is_text.cases)
     (auto simp: get_prop_read or_else_def split: option.splits json.splits)

lemma cell_text:
  "is_text (read v k) \<Longrightarrow> or_else (read v k) (JStr []) = JStr (text_at (Some v) k)"
  by (simp add: or_else_text text_at_def)

lemma toISOString_entry:
  "wf_entry en \<Longrightarrow> toISOString fmt (read en ''timestamp'') = Inr (fmt (time_of en))"
  unfolding wf_entry_def toISOString_def time_of_def
  by (cases "read en ''timestamp''") (auto split: json.splits)

lemma attachments_entry:
  assumes "wf_entry en"
  shows "array_of (Some (or_else (read en ''attachments'') (JArr []))) = Inr (attachments_of en)"
    and "mapE attachment_text (attachments_of en) = Inr (map pair_text (attachments_of en))"
proof -
  from assms show "array_of (Some (or_else (read en ''attachments'') (JArr []))) = Inr (attachments_of en)"
    unfolding wf_entry_def attachments_of_def or_else_def
    by (cases "read en ''attachments''") (auto split: json.splits)
  from assms have "\<And>a. a \<in> set (attachments_of en) \<Longrightarrow> wf_link a"
    unfolding wf_entry_def attachments_of_def
    by (cases "read en ''attachments''") (auto split: json.splits simp: list_all_iff)
  then show "mapE attachment_text (attachments_of en) = Inr (map pair_text (attachments_of en))"
    by (intro mapE_total attachment_text_total)
qed

lemma entry_row_orphan:
  assumes "ev \<noteq> JNull" and "wf_evidence ev" and "wf_entry en"
  shows "entry_row fmt None ev en = Inr (map JStr (line fmt None ev en))"
proof -
  from assms(3) have en: "en \<noteq> JNull" by (simp add: wf_entry_def)
  from assms(2) have t: "is_text (read ev ''title'')" "is_text (read ev ''type'')" "tagged ev"
    by (simp_all add: wf_evidence_def)
  from assms(3) have u: "is_text (read en ''author'')" "is_text (read en ''body'')"
    by (simp_all add: wf_entry_def)
  have j: "join '';'' (JArr []) = Inr []"
    by (simp add: join_def)
  show ?thesis
    unfolding entry_row_def line_def
    by (simp add: get_prop_read [OF assms(1)] get_prop_read [OF en] j join_tags [OF t(3)]
        toISOString_entry [OF assms(3)] attachments_entry [OF assms(3)]
        cell_text [OF t(1)] cell_text [OF t(2)] cell_text [OF u(1)] cell_text [OF u(2)])
      (simp add: or_else_def text_at_def tag_texts_def j)
qed

lemma entry_row_owned:
  assumes "i \<noteq> JNull" and "wf_investigation i"
    and "ev \<noteq> JNull" and "wf_evidence ev" and "wf_entry en"
  shows "entry_row fmt (Some i) ev en = Inr (map JStr (line fmt (Some i) ev en))"
proof -
  from assms(5) have en: "en \<noteq> JNull" by (simp add: wf_entry_def)
  from assms(2) have s: "is_text (read i ''caseNumber'')" "is_text (read i ''title'')"
      "is_text (read i ''status'')" "tagged i"
    by (simp_all add: wf_investigation_def)
  from assms(4) have t: "is_text (read ev ''title'')" "is_text (read ev ''type'')" "tagged ev"
    by (simp_all add: wf_evidence_def)
  from assms(5) have u: "is_text (read en ''author'')" "is_text (read en ''body'')"
    by (simp_all add: wf_entry_def)
  have o: "\<And>k. k \<noteq> ''entries'' \<Longrightarrow> opt_prop (Some i) k = Inr (read i k)"
    using assms(1) by (cases i) (simp_all add: read_def)
  show ?thesis
    unfolding entry_row_def line_def
    by (simp add: o get_prop_read [OF assms(3)] get_prop_read [OF en]
        join_tags [OF s(4)] join_tags [OF t(3)]
        toISOString_entry [OF assms(5)] attachments_entry [OF assms(5)]
        cell_text [OF s(1)] cell_text [OF s(2)] cell_text [OF s(3)]
        cell_text [OF t(1)] cell_text [OF t(2)] cell_text [OF u(1)] cell_text [OF u(2)])
qed

lemma entries_evidence:
  assumes "wf_evidence ev"
  shows "array_of (Some (or_else (read ev ''entries'') (JArr []))) = Inr (entries_of ev)"
    and "\<And>en. en \<in> set (entries_of ev) \<Longrightarrow> wf_entry en"
proof -
  from assms show "array_of (Some (or_else (read ev ''entries'') (JArr []))) = Inr (entries_of ev)"
    unfolding wf_evidence_def entries_of_def or_else_def
    by (cases "read ev ''entries''") (auto split: json.splits)
  fix en
  assume "en \<in> set (entries_of ev)"
  with assms show "wf_entry en"
    unfolding wf_evidence_def entries_of_def
    by (cases "read ev ''entries''") (auto split: json.splits simp: list_all_iff)
qed

lemma evidence_rows_total:
  assumes "holds db ''investigations'' invs" and "\<forall>i\<in>set invs. wf_investigation i"
    and "ev \<noteq> JNull" and "wf_evidence ev"
  shows "evidence_rows fmt db ev =
     Inr (map (\<lambda>en. map JStr (line fmt (parent_of invs ev) ev en)) (entries_of ev))"
proof -
  have rows: "mapE (entry_row fmt (parent_of invs ev) ev) (entries_of ev) =
      Inr (map (\<lambda>en. map JStr (line fmt (parent_of invs ev) ev en)) (entries_of ev))"
  proof (intro mapE_total)
    fix en
    assume "en \<in> set (entries_of ev)"
    then have en: "wf_entry en" by (rule entries_evidence(2) [OF assms(4)])
    show "entry_row fmt (parent_of invs ev) ev en = Inr (map JStr (line fmt (parent_of invs ev) ev en))"
    proof (cases "parent_of invs ev")
      case None
      then show ?thesis using entry_row_orphan [OF assms(3,4) en] by simp
    next
      case (Some i)
      then have "i \<in> set invs" by (rule parent_of_member)
      with assms(1,2) have "i \<noteq> JNull" "wf_investigation i" by (auto simp: holds_def)
      with Some show ?thesis using entry_row_owned [OF _ _ assms(3,4) en] by simp
    qed
  qed
  from assms(4) have "is_record ev" by (simp add: wf_evidence_def)
  then have "get_prop ev ''entries'' = Inr (read ev ''entries'')" by (rule get_prop_record)
  then show ?thesis
    unfolding evidence_rows_def
    by (simp add: find_investigation_total [OF assms(1,3)]
        entries_evidence(1) [OF assms(4)] rows)
qed

text \<open>
  C8 (amended). On a database whose records are as the data model has them (every evidence
  an object, its entries with a time value, text fields that are strings), the export is
  the row of column names followed by one row for every entry of every evidence, in their
  order, and by nothing else. The row of an entry
  holds, in the order of the columns, the case number, title, status and tags of the
  investigation that the evidence refers to, the title, type and tags of the evidence, and
  the time, author, body and attachments of the entry, tags joined by \<open>;\<close> and attachments
  written \<open>label:url\<close> and joined by \<open> | \<close>, with the word \<open>link\<close> for a blank label.
  Where no investigation has the id that the evidence refers to, the four columns of the
  investigation are empty and the row is there all the same. The file is these rows,
  every field encoded by \<^verbatim>\<open>csvSafe\<close>, joined by commas and newlines.
\<close>

theorem exportCSV_rows:
  assumes "holds db ''investigations'' invs" and "holds db ''evidence'' evs"
    and "\<forall>i\<in>set invs. wf_investigation i" and "\<forall>ev\<in>set evs. wf_evidence ev"
  shows "csv_rows fmt db = Inr (map (map JStr) (sheet fmt invs evs))
     \<and> length (sheet fmt invs evs) = 1 + sum_list (map (\<lambda>ev. length (entries_of ev)) evs)
     \<and> exportCSV fmt db =
         Inr (intercalate [newline]
               (map (\<lambda>r. intercalate '','' (map (\<lambda>c. csvSafe (Some (JStr c))) r))
                    (sheet fmt invs evs)))
     \<and> (\<forall>ev en. take 4 (line fmt None ev en) = [[], [], [], []])"
proof -
  from assms(2) have c: "collection db ''evidence'' = Inr evs"
    and nn: "\<And>ev. ev \<in> set evs \<Longrightarrow> ev \<noteq> JNull"
    by (auto simp: holds_def)
  have m: "mapE (evidence_rows fmt db) evs =
      Inr (map (\<lambda>ev. map (\<lambda>en. map JStr (line fmt (parent_of invs ev) ev en)) (entries_of ev)) evs)"
    using nn assms(4) by (intro mapE_total evidence_rows_total [OF assms(1,3)]) auto
  have r: "csv_rows fmt db = Inr (map (map JStr) (sheet fmt invs evs))"
    by (simp add: csv_rows_def c m sheet_def header_def column_names_def map_concat comp_def)
  have l: "length (sheet fmt invs evs) = 1 + sum_list (map (\<lambda>ev. length (entries_of ev)) evs)"
    by (simp add: sheet_def length_concat comp_def)
  have x: "exportCSV fmt db =
         Inr (intercalate [newline]
               (map (\<lambda>r. intercalate '','' (map (\<lambda>c. csvSafe (Some (JStr c))) r))
                    (sheet fmt invs evs)))"
    by (simp add: exportCSV_def r comp_def)
  have o: "\<forall>ev en. take 4 (line fmt None ev en) = [[], [], [], []]"
    by (simp add: line_def text_at_def tag_texts_def)
  from r l x o show ?thesis by blast
qed

text \<open>An evidence of investigation A with the entries \<open>hello, world\<close> and \<open>plain\<close>, an
  evidence of an investigation that is gone, and an evidence without entries.\<close>

theorem exportCSV_rows_witness:
  "holds (JObj [(''investigations'', JArr [JObj [(''id'', JStr ''A''), (''title'', JStr ''Heist''), (''tags'', JArr [JStr ''x'', JStr ''y''])]]),
          (''evidence'', JArr [JObj [(''id'', JStr ''E1''), (''investigationId'', JStr ''A''), (''title'', JStr ''Knife''),
            (''entries'',
             JArr [JObj [(''timestamp'', JNum 12), (''body'', JStr ''hello, world''),
                         (''attachments'',
                          JArr [JObj [(''label'', JStr ''pic''), (''url'', JStr ''u2'')]])],
                   JObj [(''timestamp'', JNum 3), (''body'', JStr ''plain'')]])],
      JObj [(''id'', JStr ''E2''), (''investigationId'', JStr ''gone''),
            (''entries'', JArr [JObj [(''timestamp'', JNum 1)]])],
      JObj [(''id'', JStr ''E3'')]])]) ''investigations'' [JObj [(''id'', JStr ''A''), (''title'', JStr ''Heist''), (''tags'', JArr [JStr ''x'', JStr ''y''])]]
   \<and> exportCSV (\<lambda>n. CHR ''T'' # show_int n) (JObj [(''investigations'', JArr [JObj [(''id'', JStr ''A''), (''title'', JStr ''Heist''), (''tags'', JArr [JStr ''x'', JStr ''y''])]]),
          (''evidence'', JArr [JObj [(''id'', JStr ''E1''), (''investigationId'', JStr ''A''), (''title'', JStr ''Knife''),
            (''entries'',
             JArr [JObj [(''timestamp'', JNum 12), (''body'', JStr ''hello, world''),
                         (''attachments'',
                          JArr [JObj [(''label'', JStr ''pic''), (''url'', JStr ''u2'')]])],
                   JObj [(''timestamp'', JNum 3), (''body'', JStr ''plain'')]])],
      JObj [(''id'', JStr ''E2''), (''investigationId'', JStr ''gone''),
            (''entries'', JArr [JObj [(''timestamp'', JNum 1)]])],
      JObj [(''id'', JStr ''E3'')]])])
     = Inr (''caseNumber,investigationTitle,investigationStatus,investigationTags,''
            @ ''evidenceTitle,evidenceType,evidenceTags,entryTimestamp,entryAuthor,entryBody,''
            @ ''attachments'' @ [newline]
            @ '',Heist,,x;y,Knife,,,T12,,'' @ [dquote] @ ''hello, world'' @ [dquote] @ '',pic:u2''
            @ [newline]
            @ '',Heist,,x;y,Knife,,,T3,,plain,'' @ [newline]
            @ '',,,,,,,T1,,,'')"
proof -
  let ?A = "JObj [(''id'', JStr ''A''), (''title'', JStr ''Heist''), (''tags'', JArr [JStr ''x'', JStr ''y''])]"
  let ?E1 = "JObj [(''id'', JStr ''E1''), (''investigationId'', JStr ''A''), (''title'', JStr ''Knife''),
            (''entries'',
             JArr [JObj [(''timestamp'', JNum 12), (''body'', JStr ''hello, world''),
                         (''attachments'',
                          JArr [JObj [(''label'', JStr ''pic''), (''url'', JStr ''u2'')]])],
                   JObj [(''timestamp'', JNum 3), (''body'', JStr ''plain'')]])]"
  let ?E2 = "JObj [(''id'', JStr ''E2''), (''investigationId'', JStr ''gone''),
            (''entries'', JArr [JObj [(''timestamp'', JNum 1)]])]"
  let ?E3 = "JObj [(''id'', JStr ''E3'')]"
  let ?db = "JObj [(''investigations'', JArr [?A]), (''evidence'', JArr [?E1, ?E2, ?E3])]"
  let ?fmt = "\<lambda>n. CHR ''T'' # show_int n"
  have i: "holds ?db ''investigations'' [?A]"
    by (simp add: holds_def collection_def)
  have e: "holds ?db ''evidence'' [?E1, ?E2, ?E3]"
    by (simp add: holds_def collection_def)
  have wi: "\<forall>i\<in>set [?A]. wf_investigation i"
    by (simp add: wf_investigation_def tagged_def)
  have we: "\<forall>ev\<in>set [?E1, ?E2, ?E3]. wf_evidence ev"
    by (simp add: wf_evidence_def wf_entry_def wf_link_def tagged_def)
  have t: "intercalate [newline]
       (map (\<lambda>r. intercalate '','' (map (\<lambda>c. csvSafe (Some (JStr c))) r))
            (sheet ?fmt [?A] [?E1, ?E2, ?E3]))
     = ''caseNumber,investigationTitle,investigationStatus,investigationTags,''
            @ ''evidenceTitle,evidenceType,evidenceTags,entryTimestamp,entryAuthor,entryBody,''
            @ ''attachments'' @ [newline]
            @ '',Heist,,x;y,Knife,,,T12,,'' @ [dquote] @ ''hello, world'' @ [dquote] @ '',pic:u2''
            @ [newline]
            @ '',Heist,,x;y,Knife,,,T3,,plain,'' @ [newline]
            @ '',,,,,,,T1,,,''"
    by code_simp
  from exportCSV_rows [OF i e wi we, of ?fmt]
  have "exportCSV ?fmt ?db = Inr (intercalate [newline]
       (map (\<lambda>r. intercalate '','' (map (\<lambda>c. csvSafe (Some (JStr c))) r))
            (sheet ?fmt [?A] [?E1, ?E2, ?E3])))"
    by blast
  with t i show ?thesis by simp
qed

text \<open>An attachment with a blank label is written \<open>link:url\<close>, not \<open>:url\<close>.\<close>

theorem exportCSV_blank_label_counterexample:
  "csv_rows (\<lambda>n. CHR ''T'' # show_int n)
     (JObj [(''investigations'', JArr []),
            (''evidence'',
             JArr [JObj [(''id'', JStr ''E1''),
                         (''entries'',
                          JArr [JObj [(''timestamp'', JNum 1),
                                      (''attachments'',
                                       JArr [JObj [(''label'', JStr []), (''url'', JStr ''u1'')]])]])]])])
   = Inr [header,
          [JStr [], JStr [], JStr [], JStr [], JStr [], JStr [], JStr [], JStr ''T1'', JStr [],
           JStr [], JStr ''link:u1'']]"
  by code_simp

text \<open>An evidence that is an array is no record of the data model. Under the name
  \<^verbatim>\<open>entries\<close> it has the method of \<^verbatim>\<open>Array.prototype\<close>, which is no value of this model, and
  the model does not say what the export does.\<close>

lemma exportCSV_array_evidence:
  "exportCSV fmt (JObj [(''investigations'', JArr []), (''evidence'', JArr [JArr []])])
   = Inl Unmodelled"
  by (simp add: exportCSV_def csv_rows_def evidence_rows_def find_investigation_def
      collection_def thenE_def)

subsection \<open>The fuel of the parser\<close>

text \<open>Every call of the parser that follows another one starts at a shorter text, or at
  the same text and then reads a character of it before the next call. So the calls nest
  no deeper than twice the length of the text, and fuel beyond that is never used: the
  result of \<open>JSON_parse\<close> is that of the parser without a bound.\<close>

lemma skip_ws_length: "length (skip_ws cs) \<le> length cs"
  by (simp add: skip_ws_def length_dropWhile_le)

lemma skip_ws_shorter: "skip_ws cs = c # r \<Longrightarrow> length r < length cs"
  using skip_ws_length [of cs] by simp

lemma parse_chars_shorter: "parse_chars cs = Inr (s, r) \<Longrightarrow> length r < length cs"
proof (induction cs arbitrary: s r rule: parse_chars.induct)
  case 1
  then show ?case by simp
next
  case (2 c cs)
  show ?case
  proof (cases "c = dquote")
    case True
    with "2.prems" show ?thesis by simp
  next
    case q: False
    show ?thesis
    proof (cases "c = backslash")
      case False
      with q "2.prems" "2.IH"(3) show ?thesis
        by (fastforce split: if_splits sum.splits)
    next
      case b: True
      show ?thesis
      proof (cases cs)
        case Nil
        with q b "2.prems" show ?thesis by simp
      next
        case (Cons e cs')
        show ?thesis
        proof (cases "e = CHR ''u''")
          case False
          with q b Cons "2.prems" "2.IH"(2) [of e cs'] show ?thesis
            by (fastforce split: if_splits sum.splits option.splits)
        next
          case True
          with q b Cons "2.prems" "2.IH"(1) [of e cs'] show ?thesis
            by (fastforce split: if_splits sum.splits option.splits list.splits)
        qed
      qed
    qed
  qed
qed

lemma parse_digits_shorter: "parse_digits cs = Inr (n, r) \<Longrightarrow> length r \<le> length cs"
  by (auto simp: parse_digits_def Let_def split: list.splits if_splits)

lemma parse_number_shorter: "parse_number cs = Inr (v, r) \<Longrightarrow> length r \<le> length cs"
  by (auto simp: parse_number_def split: list.splits if_splits sum.splits
      dest: parse_digits_shorter)


lemma parse_shorter:
  "(\<forall>cs v r. parse_value n cs = Inr (v, r) \<longrightarrow> length r \<le> length cs)
   \<and> (\<forall>cs vs r. parse_elements n cs = Inr (vs, r) \<longrightarrow> length r \<le> length cs)
   \<and> (\<forall>cs kvs r. parse_members n cs = Inr (kvs, r) \<longrightarrow> length r \<le> length cs)"
proof (induction n)
  case 0
  show ?case by simp
next
  case (Suc n)
  have v: "length r \<le> length cs" if "parse_value n cs = Inr (v, r)" for cs v r
    using Suc that by blast
  have e: "length r \<le> length cs" if "parse_elements n cs = Inr (vs, r)" for cs vs r
    using Suc that by blast
  have m: "length r \<le> length cs" if "parse_members n cs = Inr (kvs, r)" for cs kvs r
    using Suc that by blast
  have "length r \<le> length cs" if "parse_value (Suc n) cs = Inr (v, r)" for cs v r
    using that skip_ws_length [of cs]
    by (auto split: list.splits if_splits sum.splits
        dest!: skip_ws_shorter parse_chars_shorter parse_number_shorter e m)
  moreover have "length r \<le> length cs" if "parse_elements (Suc n) cs = Inr (vs, r)" for cs vs r
    using that
    by (auto split: list.splits if_splits sum.splits dest!: skip_ws_shorter v e)
  moreover have "length r \<le> length cs" if "parse_members (Suc n) cs = Inr (kvs, r)" for cs kvs r
    using that
    by (auto split: list.splits if_splits sum.splits
        dest!: skip_ws_shorter parse_chars_shorter v m)
  ultimately show ?case by blast
qed


lemma parse_value_shorter: "parse_value n cs = Inr (v, r) \<Longrightarrow> length r \<le> length cs"
  using parse_shorter [of n] by blast

lemma parse_stable:
  "(\<forall>cs. 2 * length cs + 2 \<le> n \<longrightarrow> parse_value (Suc n) cs = parse_value n cs)
   \<and> (\<forall>cs. 2 * length cs + 3 \<le> n \<longrightarrow> parse_elements (Suc n) cs = parse_elements n cs)
   \<and> (\<forall>cs. 2 * length cs + 3 \<le> n \<longrightarrow> parse_members (Suc n) cs = parse_members n cs)"
proof (induction n)
  case 0
  show ?case by simp
next
  case (Suc n)
  have v: "parse_value (Suc n) cs = parse_value n cs" if "2 * length cs + 2 \<le> n" for cs
    using Suc that by blast
  have e: "parse_elements (Suc n) cs = parse_elements n cs" if "2 * length cs + 3 \<le> n" for cs
    using Suc that by blast
  have m: "parse_members (Suc n) cs = parse_members n cs" if "2 * length cs + 3 \<le> n" for cs
    using Suc that by blast
  have "parse_value (Suc (Suc n)) cs = parse_value (Suc n) cs"
    if le: "2 * length cs + 2 \<le> Suc n" for cs
  proof (cases "skip_ws cs")
    case Nil
    then show ?thesis by simp
  next
    case (Cons c r)
    from skip_ws_shorter [OF Cons] le have "2 * length r + 3 \<le> n" by simp
    then have "parse_elements (Suc n) r = parse_elements n r"
      and "parse_members (Suc n) r = parse_members n r"
      using e m by blast+
    with Cons show ?thesis
      by (simp del: parse_elements.simps parse_members.simps split: list.splits)
  qed
  moreover have "parse_elements (Suc (Suc n)) cs = parse_elements (Suc n) cs"
    if le: "2 * length cs + 3 \<le> Suc n" for cs
  proof -
    from le have a: "parse_value (Suc n) cs = parse_value n cs" using v by simp
    show ?thesis
    proof (cases "parse_value n cs")
      case (Inl err)
      with a show ?thesis by (simp del: parse_value.simps)
    next
      case (Inr p)
      obtain x r where p: "p = (x, r)" by (cases p)
      from Inr p have "length r \<le> length cs" using parse_value_shorter by blast
      with le have b: "\<And>c r'. skip_ws r = c # r' \<Longrightarrow> parse_elements (Suc n) r' = parse_elements n r'"
        using e skip_ws_shorter by fastforce
      from a Inr p b show ?thesis
        apply (simp only: parse_elements.simps(2) [of "Suc n" cs] parse_elements.simps(2) [of n cs])
        apply (simp del: parse_value.simps parse_elements.simps split: list.splits)
        done
    qed
  qed
  moreover have "parse_members (Suc (Suc n)) cs = parse_members (Suc n) cs"
    if le: "2 * length cs + 3 \<le> Suc n" for cs
  proof -
    have a: "parse_value (Suc n) r2 = parse_value n r2" if "length r2 < length cs" for r2
      using le that v [of r2] by simp
    have b: "parse_members (Suc n) r4 = parse_members n r4" if "length r4 < length cs" for r4
      using le that m [of r4] by simp
    have "(case parse_value (Suc n) r2 of Inl e \<Rightarrow> Inl e
            | Inr (v, r3) \<Rightarrow>
                (case skip_ws r3 of [] \<Rightarrow> Inl SyntaxError
                 | d # r4 \<Rightarrow>
                     if d = CHR '','' then
                       (case parse_members (Suc n) r4 of Inl e \<Rightarrow> Inl e
                        | Inr (kvs, rest) \<Rightarrow> Inr ((k, v) # kvs, rest))
                     else if d = CHR ''}'' then Inr ([(k, v)], r4)
                     else Inl SyntaxError))
          = (case parse_value n r2 of Inl e \<Rightarrow> Inl e
             | Inr (v, r3) \<Rightarrow>
                (case skip_ws r3 of [] \<Rightarrow> Inl SyntaxError
                 | d # r4 \<Rightarrow>
                     if d = CHR '','' then
                       (case parse_members n r4 of Inl e \<Rightarrow> Inl e
                        | Inr (kvs, rest) \<Rightarrow> Inr ((k, v) # kvs, rest))
                     else if d = CHR ''}'' then Inr ([(k, v)], r4)
                     else Inl SyntaxError))"
      if r2: "length r2 < length cs" for r2 k
    proof (cases "parse_value n r2")
      case (Inl err)
      with a [OF r2] show ?thesis by simp
    next
      case (Inr p)
      obtain x r3 where p: "p = (x, r3)" by (cases p)
      from Inr p have "length r3 \<le> length r2" using parse_value_shorter by blast
      with r2 have "\<And>d r4. skip_ws r3 = d # r4 \<Longrightarrow> parse_members (Suc n) r4 = parse_members n r4"
        using b skip_ws_shorter by fastforce
      with a [OF r2] Inr p show ?thesis
        by (simp del: parse_members.simps split: list.splits)
    qed
    note step = this
    show ?thesis
      apply (simp only: parse_members.simps(2) [of "Suc n" cs] parse_members.simps(2) [of n cs])
      apply (cases "skip_ws cs"; simp del: parse_value.simps parse_members.simps)
      subgoal for c r
        apply (cases "parse_chars r"; simp del: parse_value.simps parse_members.simps)
        subgoal for p
          apply (cases p; simp del: parse_value.simps parse_members.simps)
          subgoal for k r1
            apply (cases "skip_ws r1"; simp del: parse_value.simps parse_members.simps)
            subgoal for c' r2
              using step [of r2 k] skip_ws_shorter [of cs c r] parse_chars_shorter [of r k r1]
                skip_ws_shorter [of r1 c' r2]
              by (simp del: parse_value.simps parse_members.simps)
            done
          done
        done
      done
  qed
  ultimately show ?case by blast
qed

lemma parse_value_fuel:
  "2 * length cs + 2 \<le> n \<Longrightarrow> parse_value n cs = parse_value (2 * length cs + 2) cs"
proof (induction n)
  case 0
  then show ?case by simp
next
  case (Suc n)
  show ?case
  proof (cases "2 * length cs + 2 \<le> n")
    case True
    with Suc.IH parse_stable [of n] show ?thesis by simp
  next
    case False
    with Suc.prems have "Suc n = 2 * length cs + 2" by simp
    then show ?thesis by (simp del: parse_value.simps)
  qed
qed

lemma JSON_parse_fuel:
  "2 * length s + 2 \<le> n \<Longrightarrow>
   JSON_parse s =
     (case parse_value n s of
        Inl e \<Rightarrow> Inl e
      | Inr (v, rest) \<Rightarrow> if skip_ws rest = [] then Inr v else Inl SyntaxError)"
  using parse_value_fuel [of s n] by (simp add: JSON_parse_def del: parse_value.simps)

subsection \<open>Loading\<close>

lemma JSON_parse_empty: "JSON_parse [] = Inl SyntaxError"
  by (simp add: JSON_parse_def skip_ws_def)

text \<open>
  C10. \<^verbatim>\<open>loadDB\<close> checks no shape. Where the slot holds a text that parses, it returns
  the parsed value as it is: \<^verbatim>\<open>null\<close> for the text \<open>null\<close>, the number 42 for the text
  \<open>42\<close>. It returns the fresh empty database when the slot is absent and when the parser
  throws, and in no other case (an empty text is one on which the parser throws).
\<close>

theorem loadDB_verbatim:
  "loadDB None = Inr empty_db
   \<and> (JSON_parse s = Inl SyntaxError \<longrightarrow> loadDB (Some s) = Inr empty_db)
   \<and> (JSON_parse s = Inr v \<longrightarrow> loadDB (Some s) = Inr v)
   \<and> loadDB (Some ''null'') = Inr JNull
   \<and> loadDB (Some ''42'') = Inr (JNum 42)
   \<and> empty_db = JObj [(''investigations'', JArr []), (''evidence'', JArr []), (''version'', JNum 1)]"
proof -
  have a: "loadDB None = Inr empty_db"
    by (simp add: loadDB_def)
  have b: "JSON_parse s = Inl SyntaxError \<longrightarrow> loadDB (Some s) = Inr empty_db"
    by (simp add: loadDB_def)
  have c: "JSON_parse s = Inr v \<longrightarrow> loadDB (Some s) = Inr v"
    using JSON_parse_empty by (auto simp: loadDB_def)
  have n: "JSON_parse ''null'' = Inr JNull" by code_simp
  have m: "JSON_parse ''42'' = Inr (JNum 42)" by code_simp
  have d: "loadDB (Some ''null'') = Inr JNull"
    by (simp add: loadDB_def n)
  have e: "loadDB (Some ''42'') = Inr (JNum 42)"
    by (simp add: loadDB_def m)
  from a b c d e show ?thesis by (simp add: empty_db_def)
qed

theorem loadDB_verbatim_witness:
  "JSON_parse ''[1,'' = Inl SyntaxError \<and> loadDB (Some ''[1,'') = Inr empty_db
   \<and> JSON_parse ''[1]'' = Inr (JArr [JNum 1]) \<and> loadDB (Some ''[1]'') = Inr (JArr [JNum 1])"
proof -
  have a: "JSON_parse ''[1,'' = Inl SyntaxError" by code_simp
  have b: "JSON_parse ''[1]'' = Inr (JArr [JNum 1])" by code_simp
  from a loadDB_verbatim [of "''[1,''"] have "loadDB (Some ''[1,'') = Inr empty_db" by blast
  moreover from b loadDB_verbatim [of "''[1]''" "JArr [JNum 1]"]
  have "loadDB (Some ''[1]'') = Inr (JArr [JNum 1])" by blast
  ultimately show ?thesis using a b by blast
qed

subsection \<open>Importing\<close>

lemma import_checked_parsed:
  assumes "JSON_parse content = Inr v"
  shows "import_checked content =
     (case v of
        JObj kvs \<Rightarrow>
          if isArray (map_of kvs ''investigations'') \<and> isArray (map_of kvs ''evidence'')
          then Inr v else Inl Missing_keys
      | JArr xs \<Rightarrow> Inl Missing_keys
      | w \<Rightarrow> Inl Invalid_file)"
  using assms by (cases v) (auto simp: import_checked_def)

lemma import_checked_verdict:
  assumes "JSON_parse content = Inr v"
  shows "import_checked content =
     (if is_database v then Inr v
      else Inl (if typeof v = ''object'' \<and> v \<noteq> JNull then Missing_keys else Invalid_file))"
  unfolding import_checked_parsed [OF assms] is_database_def
  by (cases v) simp_all

text \<open>
  C2. With a parsed content that is not an object, or whose \<^verbatim>\<open>investigations\<close> or
  \<^verbatim>\<open>evidence\<close> is not a sequence, \<^verbatim>\<open>importJSON\<close> fails with one of its two validation
  errors and the database stays as it is; so it does when the content does not parse.
  With a content that passes, the database becomes the imported value, whatever it was
  before.
\<close>

theorem importJSON_validates:
  "(JSON_parse content = Inr v \<and> \<not> is_database v \<longrightarrow>
      importJSON content db =
        Inr (db, Import_failed (if typeof v = ''object'' \<and> v \<noteq> JNull then Missing_keys
                                else Invalid_file)))
   \<and> (JSON_parse content = Inl SyntaxError \<longrightarrow>
        importJSON content db = Inr (db, Import_failed SyntaxError))
   \<and> (JSON_parse content = Inr v \<and> is_database v \<longrightarrow>
        importJSON content db = Inr (v, Import_successful))"
proof (intro conjI impI)
  assume "JSON_parse content = Inr v \<and> \<not> is_database v"
  then show "importJSON content db =
      Inr (db, Import_failed (if typeof v = ''object'' \<and> v \<noteq> JNull then Missing_keys
                              else Invalid_file))"
    using import_checked_verdict [of content v] by (simp add: importJSON_def)
next
  assume "JSON_parse content = Inl SyntaxError"
  then show "importJSON content db = Inr (db, Import_failed SyntaxError)"
    by (simp add: importJSON_def import_checked_def)
next
  assume "JSON_parse content = Inr v \<and> is_database v"
  then show "importJSON content db = Inr (v, Import_successful)"
    using import_checked_verdict [of content v] by (simp add: importJSON_def)
qed

text \<open>The text \<^verbatim>\<open>{"investigations": "not-an-array", "evidence": []}\<close> is refused and the
  database kept; the text \<^verbatim>\<open>{"investigations": [], "evidence": [7]}\<close> replaces it.\<close>

theorem importJSON_validates_witness:
  "importJSON ([CHR ''{'', dquote] @ ''investigations'' @ [dquote, CHR '':'', CHR '' '', dquote]
               @ ''not-an-array'' @ [dquote, CHR '','', CHR '' '', dquote] @ ''evidence''
               @ [dquote] @ '': []}'') empty_db
     = Inr (empty_db, Import_failed Missing_keys)
   \<and> importJSON ([CHR ''{'', dquote] @ ''investigations'' @ [dquote] @ '': [], '' @ [dquote]
               @ ''evidence'' @ [dquote] @ '': [7]}'') empty_db
     = Inr (JObj [(''investigations'', JArr []), (''evidence'', JArr [JNum 7])], Import_successful)"
proof -
  let ?bad = "[CHR ''{'', dquote] @ ''investigations'' @ [dquote, CHR '':'', CHR '' '', dquote]
               @ ''not-an-array'' @ [dquote, CHR '','', CHR '' '', dquote] @ ''evidence''
               @ [dquote] @ '': []}''"
  let ?good = "[CHR ''{'', dquote] @ ''investigations'' @ [dquote] @ '': [], '' @ [dquote]
               @ ''evidence'' @ [dquote] @ '': [7]}''"
  let ?b = "JObj [(''investigations'', JStr ''not-an-array''), (''evidence'', JArr [])]"
  let ?g = "JObj [(''investigations'', JArr []), (''evidence'', JArr [JNum 7])]"
  have pb: "JSON_parse ?bad = Inr ?b" by code_simp
  have pg: "JSON_parse ?good = Inr ?g" by code_simp
  have nb: "\<not> is_database ?b" by (simp add: is_database_def)
  have ng: "is_database ?g" by (simp add: is_database_def)
  from importJSON_validates [of ?bad ?b empty_db] pb nb
  have "importJSON ?bad empty_db = Inr (empty_db, Import_failed Missing_keys)"
    by simp
  moreover from importJSON_validates [of ?good ?g empty_db] pg ng
  have "importJSON ?good empty_db = Inr (?g, Import_successful)"
    by simp
  ultimately show ?thesis by blast
qed

subsection \<open>The order of the two times\<close>

lemma consistentD:
  assumes "consistent db"
  obtains kvs invs evs where "db = JObj kvs"
    and "map_of kvs ''investigations'' = Some (JArr invs)"
    and "map_of kvs ''evidence'' = Some (JArr evs)"
    and "\<forall>x\<in>set invs. ordered x" and "\<forall>x\<in>set evs. ordered x"
proof -
  from assms obtain invs evs where i: "collection db ''investigations'' = Inr invs"
    and e: "collection db ''evidence'' = Inr evs"
    and o: "list_all ordered invs" "list_all ordered evs"
    by (auto simp: consistent_def split: sum.splits)
  from collection_object [OF i] collection_object [OF e] o that show thesis
    by (auto simp: list_all_iff)
qed

lemma consistentI:
  assumes "map_of kvs ''investigations'' = Some (JArr invs)"
    and "map_of kvs ''evidence'' = Some (JArr evs)"
    and "\<forall>x\<in>set invs. ordered x" and "\<forall>x\<in>set evs. ordered x"
  shows "consistent (JObj kvs)"
  using assms by (simp add: consistent_def collection_def list_all_iff)

lemma ordered_not_null: "ordered x \<Longrightarrow> x \<noteq> JNull"
  by (auto simp: ordered_def read_def)

lemma map_of_assign_other:
  "k \<notin> set (map fst new) \<Longrightarrow> map_of (assign new base) k = map_of base k"
proof (induction new arbitrary: base)
  case Nil
  then show ?case by (simp add: assign_def)
next
  case (Cons p new)
  obtain k' v where p: "p = (k', v)" by (cases p)
  have "assign (p # new) base = assign new (AList.update k' v base)"
    by (simp add: assign_def p)
  with Cons show ?case by (simp add: p update_conv')
qed

lemma mapE_Inr:
  "mapE f xs = Inr ys \<Longrightarrow> list_all2 (\<lambda>x y. f x = Inr y) xs ys"
proof (induction xs arbitrary: ys)
  case Nil
  then show ?case by simp
next
  case (Cons x xs)
  then show ?case by (auto split: sum.splits)
qed

lemma filterE_Inr: "filterE p xs = Inr ys \<Longrightarrow> set ys \<subseteq> set xs"
proof (induction xs arbitrary: ys)
  case Nil
  then show ?case by simp
next
  case (Cons x xs)
  then show ?case by (auto split: sum.splits if_splits)
qed

lemma mapE_keeps:
  assumes "mapE f xs = Inr ys" and "\<forall>x\<in>set xs. P x"
    and "\<And>x y. x \<in> set xs \<Longrightarrow> P x \<Longrightarrow> f x = Inr y \<Longrightarrow> P y"
  shows "\<forall>y\<in>set ys. P y"
  using assms
proof (induction xs arbitrary: ys)
  case Nil
  then show ?case by simp
next
  case (Cons x xs)
  from Cons.prems(1) obtain y ys' where fx: "f x = Inr y" and m: "mapE f xs = Inr ys'"
    and ys: "ys = y # ys'"
    by (auto split: sum.splits)
  have "P y" using Cons.prems(2,3) fx by (meson list.set_intros(1))
  moreover have "\<forall>y\<in>set ys'. P y"
    using Cons.prems(2,3) by (intro Cons.IH [OF m]) (simp, meson list.set_intros(2))
  ultimately show ?case by (simp add: ys)
qed

lemma not_beforeD:
  "not_before now ident xs \<Longrightarrow> x \<in> set xs \<Longrightarrow> read x ''id'' = Some (JStr ident) \<Longrightarrow>
   read x ''createdAt'' = Some (JNum c) \<Longrightarrow> c \<le> now"
  by (auto simp: not_before_def list_all_iff)

lemma orderedE:
  assumes "ordered x"
  obtains kvs c u where "x = JObj kvs" and "map_of kvs ''createdAt'' = Some (JNum c)"
    and "map_of kvs ''updatedAt'' = Some (JNum u)" and "c \<le> u"
proof -
  from assms obtain c where c: "read x ''createdAt'' = Some (JNum c)"
    by (auto simp: ordered_def split: option.splits json.splits)
  with assms obtain u where u: "read x ''updatedAt'' = Some (JNum u)" and "c \<le> u"
    by (auto simp: ordered_def split: option.splits json.splits)
  moreover from c obtain kvs where "x = JObj kvs" using read_Some_object by blast
  ultimately show thesis using that c by simp
qed

lemma ordered_stamped:
  "map_of kvs ''createdAt'' = Some (JNum c) \<Longrightarrow> c \<le> now \<Longrightarrow>
   ordered (JObj (AList.update ''updatedAt'' (JNum now) kvs))"
  by (simp add: ordered_def update_conv')

lemma touch_ordered:
  assumes "ordered i" and "touch ident now data i = Inr i'"
    and "''createdAt'' \<notin> set (map fst (own_props data))"
    and "\<And>c. read i ''id'' = Some (JStr ident) \<Longrightarrow> read i ''createdAt'' = Some (JNum c) \<Longrightarrow> c \<le> now"
  shows "ordered i'"
proof -
  from assms(1) obtain kvs c u where i: "i = JObj kvs"
    and c: "map_of kvs ''createdAt'' = Some (JNum c)"
    by (rule orderedE)
  show ?thesis
  proof (cases "read i ''id'' = Some (JStr ident)")
    case True
    with assms(2) have i': "i' = JObj (AList.update ''updatedAt'' (JNum now) (assign (own_props data) kvs))"
      by (simp add: touch_def i)
    have "map_of (assign (own_props data) kvs) ''createdAt'' = Some (JNum c)"
      using map_of_assign_other [OF assms(3)] c by simp
    moreover have "c \<le> now" using assms(4) True c by (simp add: i)
    ultimately show ?thesis unfolding i' by (rule ordered_stamped)
  next
    case False
    with assms(2) have "i' = i" by (simp add: touch_def i)
    with assms(1) show ?thesis by simp
  qed
qed

lemma log_entry_ordered:
  assumes "ordered e" and "log_entry eid now entry e = Inr e'"
    and "\<And>c. read e ''id'' = Some (JStr eid) \<Longrightarrow> read e ''createdAt'' = Some (JNum c) \<Longrightarrow> c \<le> now"
  shows "ordered e'"
proof -
  from assms(1) obtain kvs c u where e: "e = JObj kvs"
    and c: "map_of kvs ''createdAt'' = Some (JNum c)"
    by (rule orderedE)
  show ?thesis
  proof (cases "read e ''id'' = Some (JStr eid)")
    case True
    with assms(2) obtain ens where
      e': "e' = JObj (AList.update ''updatedAt'' (JNum now)
                       (AList.update ''entries'' (JArr (entry # ens)) kvs))"
      by (auto simp: log_entry_def e split: sum.splits)
    have "map_of (AList.update ''entries'' (JArr (entry # ens)) kvs) ''createdAt'' = Some (JNum c)"
      using c by (simp add: update_conv')
    moreover have "c \<le> now" using assms(3) True c by (simp add: e)
    ultimately show ?thesis unfolding e' by (rule ordered_stamped)
  next
    case False
    with assms(2) have "e' = e" by (simp add: log_entry_def e)
    with assms(1) show ?thesis by simp
  qed
qed

lemma created_ordered:
  assumes "unstamped data"
    and "map_of base ''createdAt'' = Some (JNum now)" and "map_of base ''updatedAt'' = Some (JNum now)"
  shows "ordered (JObj (assign (own_props data) base))"
proof -
  from assms(1) have a: "''createdAt'' \<notin> set (map fst (own_props data))"
    and b: "''updatedAt'' \<notin> set (map fst (own_props data))"
    by (simp_all add: unstamped_def)
  show ?thesis
    using map_of_assign_other [OF a, of base] map_of_assign_other [OF b, of base] assms(2,3)
    by (simp add: ordered_def)
qed

lemma consistent_replace_investigations:
  assumes "consistent (JObj kvs)" and "\<forall>x\<in>set invs'. ordered x"
  shows "consistent (JObj (AList.update ''investigations'' (JArr invs') kvs))"
proof -
  from assms(1) obtain evs where "map_of kvs ''evidence'' = Some (JArr evs)"
    and "\<forall>x\<in>set evs. ordered x"
    by (rule consistentD) simp
  with assms(2) show ?thesis
    by (intro consistentI [where invs = invs' and evs = evs]) (simp_all add: update_conv')
qed

lemma consistent_replace_evidence:
  assumes "consistent (JObj kvs)" and "\<forall>x\<in>set evs'. ordered x"
  shows "consistent (JObj (AList.update ''evidence'' (JArr evs') kvs))"
proof -
  from assms(1) obtain invs where "map_of kvs ''investigations'' = Some (JArr invs)"
    and "\<forall>x\<in>set invs. ordered x"
    by (rule consistentD) simp
  with assms(2) show ?thesis
    by (intro consistentI [where invs = invs and evs = evs']) (simp_all add: update_conv')
qed

lemma perform_consistent:
  assumes "consistent db" and "admissible now a db" and "perform now a db = Inr db'"
  shows "consistent db'"
proof -
  from assms(1) obtain kvs invs evs where db: "db = JObj kvs"
    and mi: "map_of kvs ''investigations'' = Some (JArr invs)"
    and me: "map_of kvs ''evidence'' = Some (JArr evs)"
    and oi: "\<forall>x\<in>set invs. ordered x" and oe: "\<forall>x\<in>set evs. ordered x"
    by (rule consistentD)
  have ci: "collection (JObj kvs) ''investigations'' = Inr invs"
    and ce: "collection (JObj kvs) ''evidence'' = Inr evs"
    by (simp_all add: collection_def mi me)
  from assms(1) have k: "consistent (JObj kvs)" by (simp add: db)
  show ?thesis
  proof (cases a)
    case (CreateInvestigation uid data)
    with assms(2) have u: "unstamped data" by simp
    let ?inv = "JObj (assign (own_props data)
                  [(''id'', JStr uid), (''createdAt'', JNum now), (''updatedAt'', JNum now)])"
    from assms(3) CreateInvestigation
    have db': "db' = JObj (AList.update ''investigations'' (JArr (?inv # invs)) kvs)"
      by (simp add: createInvestigation_def db mi)
    have "ordered ?inv" by (rule created_ordered [OF u]) simp_all
    with oi have "\<forall>x\<in>set (?inv # invs). ordered x" by simp
    then show ?thesis unfolding db' by (rule consistent_replace_investigations [OF k])
  next
    case (UpdateInvestigation ident data)
    with assms(2) have nc: "''createdAt'' \<notin> set (map fst (own_props data))"
      and nb: "not_before now ident invs"
      by (simp_all add: ci db)
    from assms(3) UpdateInvestigation obtain invs' where
      m: "mapE (touch ident now data) invs = Inr invs'"
      and db': "db' = JObj (AList.update ''investigations'' (JArr invs') kvs)"
      by (auto simp: updateInvestigation_def ci db split: sum.splits)
    have "\<forall>x\<in>set invs'. ordered x"
      using m oi
    proof (rule mapE_keeps)
      fix x y
      assume "x \<in> set invs" "ordered x" "touch ident now data x = Inr y"
      then show "ordered y"
        using nc not_beforeD [OF nb] by (intro touch_ordered [of x ident now data y]) auto
    qed
    then show ?thesis unfolding db' by (rule consistent_replace_investigations [OF k])
  next
    case (DeleteInvestigation confirmed ident)
    show ?thesis
    proof (cases confirmed)
      case False
      with assms(3) DeleteInvestigation have "db' = db" by (simp add: deleteInvestigation_def)
      with assms(1) show ?thesis by simp
    next
      case True
      with assms(3) DeleteInvestigation obtain invs' evs' where
        fi: "filterE (differs ''id'' ident) invs = Inr invs'"
        and fe: "filterE (differs ''investigationId'' ident) evs = Inr evs'"
        and db': "db' = JObj (AList.update ''evidence'' (JArr evs')
                          (AList.update ''investigations'' (JArr invs') kvs))"
        by (auto simp: deleteInvestigation_def ci ce db split: sum.splits)
      from filterE_Inr [OF fi] oi have "\<forall>x\<in>set invs'. ordered x" by blast
      then have "consistent (JObj (AList.update ''investigations'' (JArr invs') kvs))"
        by (rule consistent_replace_investigations [OF k])
      moreover from filterE_Inr [OF fe] oe have "\<forall>x\<in>set evs'. ordered x" by blast
      ultimately show ?thesis unfolding db' by (rule consistent_replace_evidence)
    qed
  next
    case (CreateEvidence uid invId data)
    with assms(2) have u: "unstamped data" by simp
    let ?ev = "JObj (assign (own_props data)
                 [(''id'', JStr uid), (''investigationId'', JStr invId),
                  (''createdAt'', JNum now), (''updatedAt'', JNum now), (''entries'', JArr [])])"
    from assms(3) CreateEvidence
    have db': "db' = JObj (AList.update ''evidence'' (JArr (?ev # evs)) kvs)"
      by (simp add: createEvidence_def db me)
    have "ordered ?ev" by (rule created_ordered [OF u]) simp_all
    with oe have "\<forall>x\<in>set (?ev # evs). ordered x" by simp
    then show ?thesis unfolding db' by (rule consistent_replace_evidence [OF k])
  next
    case (UpdateEvidence ident data)
    with assms(2) have nc: "''createdAt'' \<notin> set (map fst (own_props data))"
      and nb: "not_before now ident evs"
      by (simp_all add: ce db)
    from assms(3) UpdateEvidence obtain evs' where
      m: "mapE (touch ident now data) evs = Inr evs'"
      and db': "db' = JObj (AList.update ''evidence'' (JArr evs') kvs)"
      by (auto simp: updateEvidence_def ce db split: sum.splits)
    have "\<forall>x\<in>set evs'. ordered x"
      using m oe
    proof (rule mapE_keeps)
      fix x y
      assume "x \<in> set evs" "ordered x" "touch ident now data x = Inr y"
      then show "ordered y"
        using nc not_beforeD [OF nb] by (intro touch_ordered [of x ident now data y]) auto
    qed
    then show ?thesis unfolding db' by (rule consistent_replace_evidence [OF k])
  next
    case (DeleteEvidence confirmed ident)
    show ?thesis
    proof (cases confirmed)
      case False
      with assms(3) DeleteEvidence have "db' = db" by (simp add: deleteEvidence_def)
      with assms(1) show ?thesis by simp
    next
      case True
      with assms(3) DeleteEvidence obtain evs' where
        fe: "filterE (differs ''id'' ident) evs = Inr evs'"
        and db': "db' = JObj (AList.update ''evidence'' (JArr evs') kvs)"
        by (auto simp: deleteEvidence_def ce db split: sum.splits)
      from filterE_Inr [OF fe] oe have "\<forall>x\<in>set evs'. ordered x" by blast
      then show ?thesis unfolding db' by (rule consistent_replace_evidence [OF k])
    qed
  next
    case (AddEntry evidenceId uid data)
    with assms(2) have nb: "not_before now evidenceId evs"
      by (simp add: ce db)
    from assms(3) AddEntry obtain evs' where
      m: "mapE (log_entry evidenceId now (new_entry uid now data)) evs = Inr evs'"
      and db': "db' = JObj (AList.update ''evidence'' (JArr evs') kvs)"
      by (auto simp: addEntry_def ce db split: sum.splits)
    have "\<forall>x\<in>set evs'. ordered x"
      using m oe
    proof (rule mapE_keeps)
      fix x y
      assume "x \<in> set evs" "ordered x"
        "log_entry evidenceId now (new_entry uid now data) x = Inr y"
      then show "ordered y"
        using not_beforeD [OF nb]
        by (intro log_entry_ordered [of x evidenceId now "new_entry uid now data" y]) auto
    qed
    then show ?thesis unfolding db' by (rule consistent_replace_evidence [OF k])
  next
    case (ImportJSON content)
    show ?thesis
    proof (cases "import_checked content")
      case (Inl e)
      with assms(3) ImportJSON have "db' = db"
        by (auto simp: importJSON_def split: if_splits)
      with assms(1) show ?thesis by simp
    next
      case (Inr v)
      with assms(3) ImportJSON have "db' = v" by (simp add: importJSON_def)
      with assms(2) ImportJSON Inr show ?thesis by simp
    qed
  qed
qed

lemma consistent_empty_db: "consistent empty_db"
  by (simp add: consistent_def empty_db_def collection_def)

text \<open>
  C5 (amended). The fresh empty database satisfies \<^verbatim>\<open>updatedAt \<ge> createdAt\<close> on every
  investigation and evidence, and so does every database reached from one that satisfies
  it by creation, partial update, deletion and appending of entries, as long as no payload
  carries a \<^verbatim>\<open>createdAt\<close> (or, on creation, an \<^verbatim>\<open>updatedAt\<close>) of its own and the clock, at an
  update or an append, does not read less than the \<^verbatim>\<open>createdAt\<close> of the record it touches.
  An import replaces the database by the content of the file, unchecked; it keeps the
  property when the content has it.
\<close>

theorem order_kept:
  "consistent empty_db
   \<and> (consistent db \<and> steady steps db \<and> run steps db = Inr db' \<longrightarrow> consistent db')"
proof -
  have "consistent db \<Longrightarrow> steady steps db \<Longrightarrow> run steps db = Inr db' \<Longrightarrow> consistent db'"
  proof (induction steps arbitrary: db)
    case Nil
    then show ?case by simp
  next
    case (Cons step steps)
    obtain now a where step: "step = (now, a)" by (cases step)
    from Cons.prems(3) obtain db1 where p: "perform now a db = Inr db1"
      and r: "run steps db1 = Inr db'"
      by (auto simp: step split: sum.splits)
    from Cons.prems(2) p have ad: "admissible now a db" and st: "steady steps db1"
      by (simp_all add: step)
    from perform_consistent [OF Cons.prems(1) ad p] have "consistent db1" .
    from Cons.IH [OF this st r] show ?case .
  qed
  with consistent_empty_db show ?thesis by blast
qed

text \<open>An investigation is created at time 5 and closed at time 7; an evidence is filed at
  time 8 and gets an entry at time 9.\<close>

theorem order_kept_witness:
  "consistent empty_db
   \<and> steady [(5, CreateInvestigation ''a'' (JObj [(''title'', JStr ''Heist'')])),
             (7, UpdateInvestigation ''a'' (JObj [(''status'', JStr ''Closed'')])),
             (8, CreateEvidence ''e'' ''a'' (JObj [(''title'', JStr ''Knife'')])),
             (9, AddEntry ''e'' ''x'' (JObj [(''body'', JStr ''found'')]))] empty_db
   \<and> run [(5, CreateInvestigation ''a'' (JObj [(''title'', JStr ''Heist'')])),
          (7, UpdateInvestigation ''a'' (JObj [(''status'', JStr ''Closed'')])),
          (8, CreateEvidence ''e'' ''a'' (JObj [(''title'', JStr ''Knife'')])),
          (9, AddEntry ''e'' ''x'' (JObj [(''body'', JStr ''found'')]))] empty_db
     = Inr (JObj [(''investigations'',
                   JArr [JObj [(''id'', JStr ''a''), (''createdAt'', JNum 5), (''updatedAt'', JNum 7),
                               (''title'', JStr ''Heist''), (''status'', JStr ''Closed'')]]),
                  (''evidence'',
                   JArr [JObj [(''id'', JStr ''e''), (''investigationId'', JStr ''a''),
                               (''createdAt'', JNum 8), (''updatedAt'', JNum 9),
                               (''entries'',
                                JArr [JObj [(''id'', JStr ''x''), (''timestamp'', JNum 9),
                                            (''body'', JStr ''found'')]]),
                               (''title'', JStr ''Knife'')]]),
                  (''version'', JNum 1)])
   \<and> consistent
        (JObj [(''investigations'',
                   JArr [JObj [(''id'', JStr ''a''), (''createdAt'', JNum 5), (''updatedAt'', JNum 7),
                               (''title'', JStr ''Heist''), (''status'', JStr ''Closed'')]]),
                  (''evidence'',
                   JArr [JObj [(''id'', JStr ''e''), (''investigationId'', JStr ''a''),
                               (''createdAt'', JNum 8), (''updatedAt'', JNum 9),
                               (''entries'',
                                JArr [JObj [(''id'', JStr ''x''), (''timestamp'', JNum 9),
                                            (''body'', JStr ''found'')]]),
                               (''title'', JStr ''Knife'')]]),
                  (''version'', JNum 1)])"
proof -
  let ?steps = "[(5, CreateInvestigation ''a'' (JObj [(''title'', JStr ''Heist'')])),
             (7, UpdateInvestigation ''a'' (JObj [(''status'', JStr ''Closed'')])),
             (8, CreateEvidence ''e'' ''a'' (JObj [(''title'', JStr ''Knife'')])),
             (9, AddEntry ''e'' ''x'' (JObj [(''body'', JStr ''found'')]))]"
  let ?end = "JObj [(''investigations'',
                   JArr [JObj [(''id'', JStr ''a''), (''createdAt'', JNum 5), (''updatedAt'', JNum 7),
                               (''title'', JStr ''Heist''), (''status'', JStr ''Closed'')]]),
                  (''evidence'',
                   JArr [JObj [(''id'', JStr ''e''), (''investigationId'', JStr ''a''),
                               (''createdAt'', JNum 8), (''updatedAt'', JNum 9),
                               (''entries'',
                                JArr [JObj [(''id'', JStr ''x''), (''timestamp'', JNum 9),
                                            (''body'', JStr ''found'')]]),
                               (''title'', JStr ''Knife'')]]),
                  (''version'', JNum 1)]"
  have s: "steady ?steps empty_db" by code_simp
  have r: "run ?steps empty_db = Inr ?end" by code_simp
  from order_kept [of empty_db ?steps ?end] s r
  have "consistent empty_db \<and> consistent ?end" by blast
  with s r show ?thesis by blast
qed

text \<open>Three runs from the empty database that end with an \<^verbatim>\<open>updatedAt\<close> before the
  \<^verbatim>\<open>createdAt\<close>: the import of a file that says so, an update at a time when the clock
  reads less than at the creation, and an update whose fields carry a \<^verbatim>\<open>createdAt\<close>.\<close>

theorem order_broken_counterexample:
  \<open>run [(9, ImportJSON
            ''{"investigations": [{"id": "a", "createdAt": 5, "updatedAt": 1}], "evidence": []}'')]
       empty_db
     = Inr (JObj [(''investigations'',
                   JArr [JObj [(''id'', JStr ''a''), (''createdAt'', JNum 5), (''updatedAt'', JNum 1)]]),
                  (''evidence'', JArr [])])
   \<and> \<not> consistent
        (JObj [(''investigations'',
                JArr [JObj [(''id'', JStr ''a''), (''createdAt'', JNum 5), (''updatedAt'', JNum 1)]]),
               (''evidence'', JArr [])])
   \<and> run [(5, CreateInvestigation ''a'' (JObj [])), (3, UpdateInvestigation ''a'' (JObj []))]
       empty_db
     = Inr (JObj [(''investigations'',
                   JArr [JObj [(''id'', JStr ''a''), (''createdAt'', JNum 5), (''updatedAt'', JNum 3)]]),
                  (''evidence'', JArr []), (''version'', JNum 1)])
   \<and> \<not> consistent
        (JObj [(''investigations'',
                JArr [JObj [(''id'', JStr ''a''), (''createdAt'', JNum 5), (''updatedAt'', JNum 3)]]),
               (''evidence'', JArr []), (''version'', JNum 1)])
   \<and> run [(5, CreateInvestigation ''a'' (JObj [])),
          (6, UpdateInvestigation ''a'' (JObj [(''createdAt'', JNum 9)]))]
       empty_db
     = Inr (JObj [(''investigations'',
                   JArr [JObj [(''id'', JStr ''a''), (''createdAt'', JNum 9), (''updatedAt'', JNum 6)]]),
                  (''evidence'', JArr []), (''version'', JNum 1)])
   \<and> \<not> consistent
        (JObj [(''investigations'',
                JArr [JObj [(''id'', JStr ''a''), (''createdAt'', JNum 9), (''updatedAt'', JNum 6)]]),
               (''evidence'', JArr []), (''version'', JNum 1)])\<close>
  by code_simp

subsection \<open>Texts and values\<close>

















lemma delimited_ws: "list_all is_ws ws \<Longrightarrow> delimited (ws @ c # rest) \<longleftrightarrow> delimited (c # rest) \<or> ws \<noteq> []"
  by (cases ws) (auto simp: delimited_def)















text \<open>The text of the export.\<close>

lemma exportJSON_example:
  \<open>exportJSON (JObj [(''investigations'', JArr [JObj [(''id'', JStr ''a'')]]),
                     (''evidence'', JArr []), (''version'', JNum 1)])
   = ''{'' @ [newline]
     @ ''  "investigations": ['' @ [newline]
     @ ''    {'' @ [newline]
     @ ''      "id": "a"'' @ [newline]
     @ ''    }'' @ [newline]
     @ ''  ],'' @ [newline]
     @ ''  "evidence": [],'' @ [newline]
     @ ''  "version": 1'' @ [newline]
     @ ''}''\<close>
  by code_simp

end
